theory Spec2Isabelle
  imports Complex_Main
begin

section \<open>Data model\<close>

text \<open>
  The values stored in the map are arbitrary Python objects. The model keeps the three
  shapes the repository's own examples store: \<open>None\<close>, integers and strings.
\<close>

datatype pyobj = PyNone | PyInt int | PyStr string

text \<open>
  The exceptions an operation can end with. \<open>DynamicArrayException\<close> is the
  out-of-range error of the backing array, \<open>ZeroDivisionError\<close> is Python's error on
  \<open>/ 0\<close> and \<open>% 0\<close>, \<open>StopIteration\<close> ends an iteration, and
  \<open>AttributeError\<close> is what reading \<open>self._index\<close> gives before \<open>__iter__\<close> has
  created it.
\<close>

datatype error = DynamicArrayException | ZeroDivisionError | StopIteration | AttributeError

text \<open>
  Modelled from the spec: \<open>HashEntry\<close> comes from the module \<open>hm_include\<close>, which is
  not among the sources. The spec gives an entry the fields key, value and tombstone;
  \<open>HashEntry(key, value)\<close> creates a live entry (tombstone false).
\<close>

record HashEntry =
  key :: string
  "value" :: pyobj
  is_tombstone :: bool

definition new_HashEntry :: "string \<Rightarrow> pyobj \<Rightarrow> HashEntry" where
  "new_HashEntry k v = \<lparr>key = k, value = v, is_tombstone = False\<rparr>"

text \<open>
  Modelled from the spec: \<open>DynamicArray\<close> comes from \<open>hm_include\<close> too. The spec
  asks of it 0-based indexing and bounds-checked access that fails with an out-of-range
  error on an invalid index. A slot holds \<open>None\<close> or an entry. Every write of the
  table is to the index it has just read, so only the read is checked below.
\<close>

type_synonym DynamicArray = "HashEntry option list"

definition da_get :: "DynamicArray \<Rightarrow> int \<Rightarrow> error + HashEntry option" where
  "da_get a i = (if 0 \<le> i \<and> i < int (length a) then Inr (a ! nat i)
                 else Inl DynamicArrayException)"

text \<open>
  The object's attributes \<open>_buckets\<close>, \<open>_capacity\<close>, \<open>_hash_function\<close>, \<open>_size\<close>
  and \<open>_index\<close>. The hash function is the constructor's parameter. \<open>_index\<close> does not
  exist until \<open>__iter__\<close> has run, which is the value \<open>None\<close> here.
\<close>

record HashMap =
  buckets :: DynamicArray
  capacity :: int
  hash_function :: "string \<Rightarrow> int"
  size_hm :: int
  index_hm :: "int option"

text \<open>Python's \<open>a % b\<close> on integers: the sign follows the divisor, as \<open>mod\<close> on
  \<open>int\<close> does; \<open>b = 0\<close> raises.\<close>

definition py_mod :: "int \<Rightarrow> int \<Rightarrow> error + int" where
  "py_mod a b = (if b = 0 then Inl ZeroDivisionError else Inr (a mod b))"

section \<open>Prime capacities\<close>

text \<open>The loop of \<open>_is_prime\<close>: \<open>while factor ** 2 <= capacity\<close>.\<close>

function is_prime_loop :: "int \<Rightarrow> int \<Rightarrow> bool" where
  "is_prime_loop factor cap =
     (if factor ^ 2 \<le> cap
      then (if cap mod factor = 0 then False else is_prime_loop (factor + 2) cap)
      else True)"
  by pat_completeness auto
termination
proof (relation "measure (\<lambda>(factor, cap). nat (cap + 1 - factor))")
  show "wf (measure (\<lambda>(factor, cap). nat (cap + 1 - factor)))"
    by simp
next
  fix factor cap :: int
  assume le: "factor ^ 2 \<le> cap"
  have "factor \<le> factor ^ 2"
  proof (cases "factor \<le> 0")
    case True
    then show ?thesis using zero_le_power2 [of factor] by linarith
  next
    case False
    then have "factor * 1 \<le> factor * factor"
      by (intro mult_left_mono) auto
    then show ?thesis by (simp add: power2_eq_square)
  qed
  then show "((factor + 2, cap), (factor, cap))
        \<in> measure (\<lambda>(factor, cap). nat (cap + 1 - factor))"
    using le by simp
qed

declare is_prime_loop.simps [simp del]

text \<open>\<open>_is_prime\<close>.\<close>

definition is_prime :: "int \<Rightarrow> bool" where
  "is_prime cap =
     (if cap = 2 \<or> cap = 3 then True
      else if cap = 1 \<or> cap mod 2 = 0 then False
      else is_prime_loop 3 cap)"

text \<open>
  \<open>_next_prime\<close>: the loop \<open>while not self._is_prime(capacity): capacity += 2\<close>
  has no bound in the source, so not returning is the value \<open>None\<close>.
\<close>

partial_function (option) next_prime_loop :: "int \<Rightarrow> int option" where
  "next_prime_loop cap =
     (if \<not> is_prime cap then next_prime_loop (cap + 2) else Some cap)"

definition next_prime :: "int \<Rightarrow> int option" where
  "next_prime cap = next_prime_loop (if cap mod 2 = 0 then cap + 1 else cap)"

section \<open>The table\<close>

text \<open>
  The constructor \<open>HashMap(capacity, function)\<close>: \<open>range\<close> of a negative number
  is empty, so a negative capacity gives an empty array.
\<close>

definition HashMap_init :: "int \<Rightarrow> (string \<Rightarrow> int) \<Rightarrow> HashMap option" where
  "HashMap_init cap function =
     (case next_prime cap of
        None \<Rightarrow> None
      | Some c \<Rightarrow>
          Some \<lparr>buckets = replicate (nat c) None, capacity = c,
                hash_function = function, size_hm = 0, index_hm = None\<rparr>)"

definition get_size :: "HashMap \<Rightarrow> int" where
  "get_size m = size_hm m"

definition get_capacity :: "HashMap \<Rightarrow> int" where
  "get_capacity m = capacity m"

text \<open>
  \<open>table_load\<close> returns the float \<open>self._size / self._capacity\<close>. The model keeps the
  exact quotient: Python's division of two integers is correctly rounded and \<open>0.5\<close> is a
  float, so for a table of fewer than \<open>2 ^ 53\<close> slots the float compares with \<open>0.5\<close>
  as the exact quotient does.
\<close>

definition table_load :: "HashMap \<Rightarrow> error + rat" where
  "table_load m =
     (if capacity m = 0 then Inl ZeroDivisionError
      else Inr (of_int (size_hm m) / of_int (capacity m)))"

text \<open>
  \<open>clear\<close> builds a temporary map of the current capacity and takes its array; the
  capacity itself is not assigned.
\<close>

definition clear :: "HashMap \<Rightarrow> HashMap option" where
  "clear m =
     (case HashMap_init (capacity m) (hash_function m) of
        None \<Rightarrow> None
      | Some temp \<Rightarrow> Some (m\<lparr>buckets := buckets temp, size_hm := 0\<rparr>))"

text \<open>
  The loop \<open>while True\<close> of \<open>put\<close>, from the state of its variables \<open>count\<close> and
  \<open>start_index\<close>. It has no bound in the source.
\<close>

partial_function (option) put_loop ::
  "HashMap \<Rightarrow> string \<Rightarrow> pyobj \<Rightarrow> int \<Rightarrow> int \<Rightarrow> int \<Rightarrow> (error + HashMap) option" where
  "put_loop m k v hash_val count start_index =
     (case da_get (buckets m) start_index of
        Inl e \<Rightarrow> Some (Inl e)
      | Inr b \<Rightarrow>
          (if b = None \<or> is_tombstone (the b) = True
           then Some (Inr (m\<lparr>buckets := (buckets m)[nat start_index := Some (new_HashEntry k v)],
                              size_hm := size_hm m + 1\<rparr>))
           else if key (the b) = k
           then Some (Inr (m\<lparr>buckets := (buckets m)[nat start_index := Some ((the b)\<lparr>value := v\<rparr>)]\<rparr>))
           else (case py_mod (hash_val + (count + 1) ^ 2) (capacity m) of
                   Inl e \<Rightarrow> Some (Inl e)
                 | Inr i \<Rightarrow> put_loop m k v hash_val (count + 1) i)))"

text \<open>
  \<open>put\<close> calls \<open>resize_table\<close>, whose loop calls \<open>put\<close>. The three pieces are one
  recursive function over the call made: \<open>Put key value\<close>, \<open>Resize_table new_capacity\<close>,
  and \<open>Reinsert buckets_temp capacity_temp idx\<close> for the loop
  \<open>for idx in range(capacity_temp)\<close> of \<open>resize_table\<close> from index \<open>idx\<close> on.
\<close>

datatype call = Put string pyobj | Resize_table int | Reinsert DynamicArray int int

partial_function (option) exec :: "call \<Rightarrow> HashMap \<Rightarrow> (error + HashMap) option" where
  "exec c m =
     (case c of
        Put k v \<Rightarrow>
          (case table_load m of
             Inl e \<Rightarrow> Some (Inl e)
           | Inr load \<Rightarrow>
               Option.bind
                 (if load \<ge> 1 / 2 then exec (Resize_table (capacity m * 2)) m
                  else Some (Inr m))
                 (\<lambda>r. case r of
                    Inl e \<Rightarrow> Some (Inl e)
                  | Inr m1 \<Rightarrow>
                      (case py_mod (hash_function m1 k + 0 ^ 2) (capacity m1) of
                         Inl e \<Rightarrow> Some (Inl e)
                       | Inr i \<Rightarrow> put_loop m1 k v (hash_function m1 k) 0 i)))
      | Resize_table new_capacity \<Rightarrow>
          (if new_capacity < size_hm m then Some (Inr m)
           else (case (if \<not> is_prime new_capacity then next_prime new_capacity
                       else Some new_capacity) of
                   None \<Rightarrow> None
                 | Some nc \<Rightarrow>
                     (case clear m of
                        None \<Rightarrow> None
                      | Some mc \<Rightarrow>
                          exec (Reinsert (buckets m) (capacity m) 0)
                            (mc\<lparr>buckets := replicate (nat nc) None, size_hm := 0,
                                capacity := nc\<rparr>))))
      | Reinsert buckets_temp capacity_temp idx \<Rightarrow>
          (if idx < capacity_temp
           then (case da_get buckets_temp idx of
                   Inl e \<Rightarrow> Some (Inl e)
                 | Inr b \<Rightarrow>
                     (if b \<noteq> None \<and> is_tombstone (the b) = False
                      then Option.bind (exec (Put (key (the b)) (value (the b))) m)
                             (\<lambda>r. case r of
                                Inl e \<Rightarrow> Some (Inl e)
                              | Inr m' \<Rightarrow>
                                  exec (Reinsert buckets_temp capacity_temp (idx + 1)) m')
                      else exec (Reinsert buckets_temp capacity_temp (idx + 1)) m))
           else Some (Inr m)))"

definition put :: "HashMap \<Rightarrow> string \<Rightarrow> pyobj \<Rightarrow> (error + HashMap) option" where
  "put m k v = exec (Put k v) m"

definition resize_table :: "HashMap \<Rightarrow> int \<Rightarrow> (error + HashMap) option" where
  "resize_table m new_capacity = exec (Resize_table new_capacity) m"

text \<open>The loop of \<open>resize_table\<close> over the old array, from index \<open>idx\<close> on.\<close>

definition reinsert :: "DynamicArray \<Rightarrow> int \<Rightarrow> int \<Rightarrow> HashMap \<Rightarrow> (error + HashMap) option" where
  "reinsert buckets_temp capacity_temp idx m = exec (Reinsert buckets_temp capacity_temp idx) m"

text \<open>
  The loop \<open>while count <= self._capacity\<close> of \<open>get\<close>. Falling out of the loop
  returns \<open>None\<close>.
\<close>

function get_loop :: "HashMap \<Rightarrow> string \<Rightarrow> int \<Rightarrow> int \<Rightarrow> int \<Rightarrow> error + pyobj" where
  "get_loop m k hash_val count start_index =
     (if count \<le> capacity m
      then (case da_get (buckets m) start_index of
              Inl e \<Rightarrow> Inl e
            | Inr b \<Rightarrow>
                (if b \<noteq> None \<and> key (the b) = k \<and> is_tombstone (the b) = False
                 then Inr (value (the b))
                 else (case py_mod (hash_val + (count + 1) ^ 2) (capacity m) of
                         Inl e \<Rightarrow> Inl e
                       | Inr i \<Rightarrow> get_loop m k hash_val (count + 1) i)))
      else Inr PyNone)"
  by pat_completeness auto
termination
  by (relation "measure (\<lambda>(m, k, hash_val, count, start_index). nat (capacity m + 1 - count))")
    auto

declare get_loop.simps [simp del]

definition get :: "HashMap \<Rightarrow> string \<Rightarrow> error + pyobj" where
  "get m k =
     (case py_mod (hash_function m k + 0 ^ 2) (capacity m) of
        Inl e \<Rightarrow> Inl e
      | Inr i \<Rightarrow> get_loop m k (hash_function m k) 0 i)"

definition contains_key :: "HashMap \<Rightarrow> string \<Rightarrow> error + bool" where
  "contains_key m k =
     (case get m k of
        Inl e \<Rightarrow> Inl e
      | Inr contains \<Rightarrow> (if contains = PyNone then Inr False else Inr True))"

text \<open>The loop of \<open>remove\<close>, with the same bound.\<close>

function remove_loop :: "HashMap \<Rightarrow> string \<Rightarrow> int \<Rightarrow> int \<Rightarrow> int \<Rightarrow> error + HashMap" where
  "remove_loop m k hash_val count start_index =
     (if count \<le> capacity m
      then (case da_get (buckets m) start_index of
              Inl e \<Rightarrow> Inl e
            | Inr b \<Rightarrow>
                (if b \<noteq> None \<and> key (the b) = k \<and> is_tombstone (the b) = False
                 then Inr (m\<lparr>buckets :=
                              (buckets m)[nat start_index := Some ((the b)\<lparr>is_tombstone := True\<rparr>)],
                            size_hm := size_hm m - 1\<rparr>)
                 else (case py_mod (hash_val + (count + 1) ^ 2) (capacity m) of
                         Inl e \<Rightarrow> Inl e
                       | Inr i \<Rightarrow> remove_loop m k hash_val (count + 1) i)))
      else Inr m)"
  by pat_completeness auto
termination
  by (relation "measure (\<lambda>(m, k, hash_val, count, start_index). nat (capacity m + 1 - count))")
    auto

declare remove_loop.simps [simp del]

definition remove :: "HashMap \<Rightarrow> string \<Rightarrow> error + HashMap" where
  "remove m k =
     (case py_mod (hash_function m k + 0 ^ 2) (capacity m) of
        Inl e \<Rightarrow> Inl e
      | Inr i \<Rightarrow> remove_loop m k (hash_function m k) 0 i)"

text \<open>
  The slots the two bounded loops read, in the order they read them: the same recursion
  as \<open>get_loop\<close> and \<open>remove_loop\<close>, recording \<open>start_index\<close> at each
  \<open>self._buckets[start_index]\<close>.
\<close>

function get_probes :: "HashMap \<Rightarrow> string \<Rightarrow> int \<Rightarrow> int \<Rightarrow> int \<Rightarrow> int list" where
  "get_probes m k hash_val count start_index =
     (if count \<le> capacity m
      then start_index #
           (case da_get (buckets m) start_index of
              Inl e \<Rightarrow> []
            | Inr b \<Rightarrow>
                (if b \<noteq> None \<and> key (the b) = k \<and> is_tombstone (the b) = False
                 then []
                 else (case py_mod (hash_val + (count + 1) ^ 2) (capacity m) of
                         Inl e \<Rightarrow> []
                       | Inr i \<Rightarrow> get_probes m k hash_val (count + 1) i)))
      else [])"
  by pat_completeness auto
termination
  by (relation "measure (\<lambda>(m, k, hash_val, count, start_index). nat (capacity m + 1 - count))")
    auto

declare get_probes.simps [simp del]

function remove_probes :: "HashMap \<Rightarrow> string \<Rightarrow> int \<Rightarrow> int \<Rightarrow> int \<Rightarrow> int list" where
  "remove_probes m k hash_val count start_index =
     (if count \<le> capacity m
      then start_index #
           (case da_get (buckets m) start_index of
              Inl e \<Rightarrow> []
            | Inr b \<Rightarrow>
                (if b \<noteq> None \<and> key (the b) = k \<and> is_tombstone (the b) = False
                 then []
                 else (case py_mod (hash_val + (count + 1) ^ 2) (capacity m) of
                         Inl e \<Rightarrow> []
                       | Inr i \<Rightarrow> remove_probes m k hash_val (count + 1) i)))
      else [])"
  by pat_completeness auto
termination
  by (relation "measure (\<lambda>(m, k, hash_val, count, start_index). nat (capacity m + 1 - count))")
    auto

declare remove_probes.simps [simp del]

definition get_trace :: "HashMap \<Rightarrow> string \<Rightarrow> int list" where
  "get_trace m k =
     (case py_mod (hash_function m k + 0 ^ 2) (capacity m) of
        Inl e \<Rightarrow> []
      | Inr i \<Rightarrow> get_probes m k (hash_function m k) 0 i)"

definition remove_trace :: "HashMap \<Rightarrow> string \<Rightarrow> int list" where
  "remove_trace m k =
     (case py_mod (hash_function m k + 0 ^ 2) (capacity m) of
        Inl e \<Rightarrow> []
      | Inr i \<Rightarrow> remove_probes m k (hash_function m k) 0 i)"

text \<open>\<open>__iter__\<close> and \<open>__next__\<close>.\<close>

definition hm_iter :: "HashMap \<Rightarrow> HashMap" where
  "hm_iter m = m\<lparr>index_hm := Some 0\<rparr>"

definition hm_next :: "HashMap \<Rightarrow> error + (HashEntry \<times> HashMap)" where
  "hm_next m =
     (case index_hm m of
        None \<Rightarrow> Inl AttributeError
      | Some i \<Rightarrow>
          (case da_get (buckets m) i of
             Inl e \<Rightarrow> Inl e
           | Inr b \<Rightarrow>
               (if b \<noteq> None \<and> is_tombstone (the b) = False
                then Inr (the b, m\<lparr>index_hm := Some (i + 1)\<rparr>)
                else Inl StopIteration)))"

text \<open>
  A \<open>for item in m\<close> loop: \<open>__iter__\<close> once, then \<open>__next__\<close> until it raises.
  \<open>drain\<close> gives the items yielded and the exception that ended the loop.
\<close>

function drain :: "HashMap \<Rightarrow> HashEntry list \<times> error" where
  "drain m =
     (case hm_next m of
        Inl e \<Rightarrow> ([], e)
      | Inr r \<Rightarrow> (fst r # fst (drain (snd r)), snd (drain (snd r))))"
  by pat_completeness auto
termination
  by (relation "measure (\<lambda>m. case index_hm m of None \<Rightarrow> 0
                            | Some i \<Rightarrow> nat (int (length (buckets m)) - i))")
    (auto simp: hm_next_def da_get_def split: option.splits if_splits)

declare drain.simps [simp del]

definition iterate :: "HashMap \<Rightarrow> HashEntry list \<times> error" where
  "iterate m = drain (hm_iter m)"

section \<open>Notions the properties are stated with\<close>

text \<open>A slot is Occupied when it holds an entry that is not a tombstone.\<close>

definition live :: "HashEntry option \<Rightarrow> bool" where
  "live b = (b \<noteq> None \<and> is_tombstone (the b) = False)"

definition count_live :: "DynamicArray \<Rightarrow> int" where
  "count_live a = int (length (filter live a))"

text \<open>A prime number, by its definition.\<close>

definition prime_int :: "int \<Rightarrow> bool" where
  "prime_int p = (1 < p \<and> (\<forall>d \<in> {2..<p}. \<not> d dvd p))"

text \<open>
  The tables a program can reach: built by the constructor from a requested capacity that
  is not negative, then changed by the public operations, each having returned.
\<close>

inductive reachable :: "HashMap \<Rightarrow> bool" where
  reach_init: "0 \<le> cap \<Longrightarrow> HashMap_init cap function = Some m \<Longrightarrow> reachable m"
| reach_put: "reachable m \<Longrightarrow> put m k v = Some (Inr m') \<Longrightarrow> reachable m'"
| reach_remove: "reachable m \<Longrightarrow> remove m k = Inr m' \<Longrightarrow> reachable m'"
| reach_resize: "reachable m \<Longrightarrow> resize_table m new_capacity = Some (Inr m') \<Longrightarrow> reachable m'"
| reach_clear: "reachable m \<Longrightarrow> clear m = Some m' \<Longrightarrow> reachable m'"
| reach_iter: "reachable m \<Longrightarrow> reachable (hm_iter m)"
| reach_next: "reachable m \<Longrightarrow> hm_next m = Inr (x, m') \<Longrightarrow> reachable m'"


text \<open>What holds of every reachable table.\<close>

definition table_inv :: "HashMap \<Rightarrow> bool" where
  "table_inv m =
     (prime_int (capacity m) \<and> nat (capacity m) \<le> length (buckets m) \<and>
      size_hm m = count_live (buckets m) \<and> 2 * size_hm m \<le> capacity m + 1)"

text \<open>Key \<open>k\<close> is absent: no slot holds a live entry with that key.\<close>

definition absent :: "HashMap \<Rightarrow> string \<Rightarrow> bool" where
  "absent m k =
     (\<forall>b \<in> set (buckets m). \<not> (b \<noteq> None \<and> key (the b) = k \<and> is_tombstone (the b) = False))"

text \<open>
  The three tests the loops make of a slot: \<open>put\<close> stops at a slot that is empty, a
  tombstone or holds the key; \<open>get\<close> and \<open>remove\<close> stop at a live entry with the
  key. \<open>place\<close> is what \<open>put\<close> does to the slot it stops at.
\<close>

definition put_stops :: "HashEntry option \<Rightarrow> string \<Rightarrow> bool" where
  "put_stops b k = (b = None \<or> is_tombstone (the b) = True \<or> key (the b) = k)"

definition matches :: "HashEntry option \<Rightarrow> string \<Rightarrow> bool" where
  "matches b k = (b \<noteq> None \<and> key (the b) = k \<and> is_tombstone (the b) = False)"

definition place :: "HashMap \<Rightarrow> string \<Rightarrow> pyobj \<Rightarrow> int \<Rightarrow> HashMap" where
  "place m k v i =
     (if buckets m ! nat i = None \<or> is_tombstone (the (buckets m ! nat i)) = True
      then m\<lparr>buckets := (buckets m)[nat i := Some (new_HashEntry k v)], size_hm := size_hm m + 1\<rparr>
      else m\<lparr>buckets := (buckets m)[nat i := Some ((the (buckets m ! nat i))\<lparr>value := v\<rparr>)]\<rparr>)"

text \<open>
  What the proofs below establish of \<open>put\<close> and \<open>resize_table\<close> on a table: the call
  returns without an error, and the table it leaves has the properties listed.
\<close>

definition put_ok :: "HashMap \<Rightarrow> bool" where
  "put_ok m =
     (\<forall>k v. \<exists>m'. put m k v = Some (Inr m') \<and> table_inv m' \<and> capacity m \<le> capacity m' \<and>
        size_hm m' \<le> size_hm m + 1 \<and> hash_function m' = hash_function m \<and>
        index_hm m' = index_hm m \<and> get m' k = Inr v \<and>
        (\<exists>i < length (buckets m'). buckets m' ! i = Some (new_HashEntry k v)))"

definition resize_ok :: "HashMap \<Rightarrow> bool" where
  "resize_ok m =
     (\<forall>nc. size_hm m \<le> nc \<longrightarrow>
        (\<exists>m'. resize_table m nc = Some (Inr m') \<and> table_inv m' \<and> nc \<le> capacity m' \<and>
           size_hm m' \<le> size_hm m \<and> hash_function m' = hash_function m \<and>
           index_hm m' = index_hm m))"

text \<open>
  A hash function for the concrete tables below: the sum of the character codes of the
  key. The keys \<open>a\<close> and \<open>d\<close> (codes 97 and 100) collide in a table of 3 slots.
\<close>

definition ord_sum :: "string \<Rightarrow> int" where
  "ord_sum k = sum_list (map (\<lambda>c. int (of_char c)) k)"

text \<open>
  Concrete tables, each reached from the one before: \<open>HashMap(3, ord_sum)\<close>, then
  \<open>put('a', 1)\<close>, \<open>put('d', 2)\<close>, \<open>remove('a')\<close>, \<open>put('d', 9)\<close> and
  \<open>resize_table(7)\<close>.
\<close>

definition ex0 :: HashMap where
  "ex0 = \<lparr>buckets = [None, None, None], capacity = 3, hash_function = ord_sum,
           size_hm = 0, index_hm = None\<rparr>"

definition ex1 :: HashMap where
  "ex1 = \<lparr>buckets = [None, Some (new_HashEntry ''a'' (PyInt 1)), None], capacity = 3,
           hash_function = ord_sum, size_hm = 1, index_hm = None\<rparr>"

definition ex2 :: HashMap where
  "ex2 = \<lparr>buckets = [None, Some (new_HashEntry ''a'' (PyInt 1)),
                      Some (new_HashEntry ''d'' (PyInt 2))],
           capacity = 3, hash_function = ord_sum, size_hm = 2, index_hm = None\<rparr>"

definition ex3 :: HashMap where
  "ex3 = \<lparr>buckets = [None, Some \<lparr>key = ''a'', value = PyInt 1, is_tombstone = True\<rparr>,
                      Some (new_HashEntry ''d'' (PyInt 2))],
           capacity = 3, hash_function = ord_sum, size_hm = 1, index_hm = None\<rparr>"

definition ex4 :: HashMap where
  "ex4 = \<lparr>buckets = [None, Some (new_HashEntry ''d'' (PyInt 9)),
                      Some (new_HashEntry ''d'' (PyInt 2))],
           capacity = 3, hash_function = ord_sum, size_hm = 2, index_hm = None\<rparr>"

definition ex5 :: HashMap where
  "ex5 = \<lparr>buckets = [None, None, Some (new_HashEntry ''d'' (PyInt 2)), None, None, None, None],
           capacity = 7, hash_function = ord_sum, size_hm = 1, index_hm = None\<rparr>"



section \<open>The recursion of \<open>put\<close> and \<open>resize_table\<close>, one equation each\<close>

lemma put_unfold:
  "put m k v =
     (case table_load m of
        Inl e \<Rightarrow> Some (Inl e)
      | Inr load \<Rightarrow>
          Option.bind
            (if load \<ge> 1 / 2 then resize_table m (capacity m * 2) else Some (Inr m))
            (\<lambda>r. case r of
               Inl e \<Rightarrow> Some (Inl e)
             | Inr m1 \<Rightarrow>
                 (case py_mod (hash_function m1 k + 0 ^ 2) (capacity m1) of
                    Inl e \<Rightarrow> Some (Inl e)
                  | Inr i \<Rightarrow> put_loop m1 k v (hash_function m1 k) 0 i)))"
  unfolding put_def resize_table_def by (subst exec.simps) simp

lemma resize_table_unfold:
  "resize_table m new_capacity =
     (if new_capacity < size_hm m then Some (Inr m)
      else (case (if \<not> is_prime new_capacity then next_prime new_capacity
                  else Some new_capacity) of
              None \<Rightarrow> None
            | Some nc \<Rightarrow>
                (case clear m of
                   None \<Rightarrow> None
                 | Some mc \<Rightarrow>
                     reinsert (buckets m) (capacity m) 0
                       (mc\<lparr>buckets := replicate (nat nc) None, size_hm := 0,
                           capacity := nc\<rparr>))))"
  unfolding resize_table_def reinsert_def by (subst exec.simps) simp

lemma reinsert_unfold:
  "reinsert buckets_temp capacity_temp idx m =
     (if idx < capacity_temp
      then (case da_get buckets_temp idx of
              Inl e \<Rightarrow> Some (Inl e)
            | Inr b \<Rightarrow>
                (if b \<noteq> None \<and> is_tombstone (the b) = False
                 then Option.bind (put m (key (the b)) (value (the b)))
                        (\<lambda>r. case r of
                           Inl e \<Rightarrow> Some (Inl e)
                         | Inr m' \<Rightarrow> reinsert buckets_temp capacity_temp (idx + 1) m')
                 else reinsert buckets_temp capacity_temp (idx + 1) m))
      else Some (Inr m))"
  unfolding put_def reinsert_def by (subst exec.simps) simp

section \<open>The concrete tables\<close>

lemma ord_sum_a: "ord_sum ''a'' = 97"
  by (simp add: ord_sum_def)

lemma ord_sum_d: "ord_sum ''d'' = 100"
  by (simp add: ord_sum_def)

lemma is_prime_3: "is_prime 3"
  by (simp add: is_prime_def)

lemma is_prime_7: "is_prime 7"
  by (simp add: is_prime_def is_prime_loop.simps)

lemma is_prime_minus_3: "is_prime (- 3)"
  by (simp add: is_prime_def is_prime_loop.simps)

lemma init_ex0: "HashMap_init 3 ord_sum = Some ex0"
  by (simp add: HashMap_init_def next_prime_def next_prime_loop.simps is_prime_3 ex0_def
      numeral_3_eq_3)

lemma put_ex0: "put ex0 ''a'' (PyInt 1) = Some (Inr ex1)"
  by (simp add: put_unfold table_load_def ex0_def ex1_def py_mod_def ord_sum_a
      put_loop.simps da_get_def)

lemma put_ex1: "put ex1 ''d'' (PyInt 2) = Some (Inr ex2)"
  by (simp add: put_unfold table_load_def ex1_def ex2_def py_mod_def ord_sum_d
      put_loop.simps da_get_def new_HashEntry_def)

lemma remove_ex2: "remove ex2 ''a'' = Inr ex3"
  by (simp add: remove_def remove_loop.simps ex2_def ex3_def py_mod_def ord_sum_a da_get_def new_HashEntry_def)

lemma put_ex3: "put ex3 ''d'' (PyInt 9) = Some (Inr ex4)"
  by (simp add: put_unfold table_load_def ex3_def ex4_def py_mod_def ord_sum_d
      put_loop.simps da_get_def new_HashEntry_def)

lemma get_ex3: "get ex3 ''d'' = Inr (PyInt 2)"
  by (simp add: get_def get_loop.simps ex3_def py_mod_def ord_sum_d da_get_def new_HashEntry_def)

lemma get_ex4: "get ex4 ''d'' = Inr (PyInt 9)"
  by (simp add: get_def get_loop.simps ex4_def py_mod_def ord_sum_d da_get_def new_HashEntry_def)

lemma clear_ex4: "clear ex4 = Some ex0"
  by (simp add: clear_def HashMap_init_def next_prime_def next_prime_loop.simps is_prime_3
      ex4_def ex0_def numeral_3_eq_3)

lemma resize_ex4: "resize_table ex4 7 = Some (Inr ex5)"
  apply (simp add: resize_table_unfold is_prime_7 clear_ex4)
  apply (simp add: ex4_def ex0_def)
  apply (simp add: reinsert_unfold da_get_def new_HashEntry_def put_unfold table_load_def
      py_mod_def ord_sum_d put_loop.simps ex5_def eval_nat_numeral)
  done

lemma get_ex5: "get ex5 ''d'' = Inr (PyInt 2)"
  by (simp add: get_def get_loop.simps ex5_def py_mod_def ord_sum_d da_get_def new_HashEntry_def)

lemma reachable_ex0: "reachable ex0"
  by (rule reach_init [OF _ init_ex0]) simp

lemma reachable_ex1: "reachable ex1"
  by (rule reach_put [OF reachable_ex0 put_ex0])

lemma reachable_ex2: "reachable ex2"
  by (rule reach_put [OF reachable_ex1 put_ex1])

lemma reachable_ex3: "reachable ex3"
  by (rule reach_remove [OF reachable_ex2 remove_ex2])

lemma reachable_ex4: "reachable ex4"
  by (rule reach_put [OF reachable_ex3 put_ex3])

section \<open>\<open>_is_prime\<close> and \<open>_next_prime\<close>\<close>

lemma is_prime_loop_sound:
  "is_prime_loop f c \<Longrightarrow> 0 < f \<Longrightarrow> f \<le> d \<Longrightarrow> even (d - f) \<Longrightarrow> d ^ 2 \<le> c \<Longrightarrow> \<not> d dvd c"
proof (induction f c rule: is_prime_loop.induct)
  case (1 factor cap)
  have "factor ^ 2 \<le> d ^ 2"
    using 1(3,4) by (intro power_mono) auto
  then have le: "factor ^ 2 \<le> cap"
    using 1(6) by linarith
  with 1(2) have nd: "cap mod factor \<noteq> 0" and rest: "is_prime_loop (factor + 2) cap"
    by (subst (asm) is_prime_loop.simps, simp split: if_splits)+
  show ?case
  proof (cases "d = factor")
    case True
    then show ?thesis using nd by (simp add: dvd_eq_mod_eq_0)
  next
    case False
    then have "factor + 2 \<le> d"
      using 1(4,5) by presburger
    moreover have "even (d - (factor + 2))"
      using 1(5) by simp
    ultimately show ?thesis
      using 1(1) [OF le nd rest] 1(3,6) by simp
  qed
qed

lemma is_prime_loop_complete:
  "0 < f \<Longrightarrow> (\<And>d. f \<le> d \<Longrightarrow> d ^ 2 \<le> c \<Longrightarrow> \<not> d dvd c) \<Longrightarrow> is_prime_loop f c"
proof (induction f c rule: is_prime_loop.induct)
  case (1 factor cap)
  show ?case
  proof (cases "factor ^ 2 \<le> cap")
    case False
    then show ?thesis by (subst is_prime_loop.simps) simp
  next
    case True
    then have nd: "cap mod factor \<noteq> 0"
      using 1(3) [of factor] by (simp add: dvd_eq_mod_eq_0)
    have "is_prime_loop (factor + 2) cap"
      using True nd
    proof (rule 1(1))
      show "0 < factor + 2" using 1(2) by simp
    next
      fix d assume "factor + 2 \<le> d" "d ^ 2 \<le> cap"
      then show "\<not> d dvd cap" using 1(3) [of d] by simp
    qed
    then show ?thesis
      using True nd by (subst is_prime_loop.simps) simp
  qed
qed

lemma prime_int_2: "prime_int 2"
  by (simp add: prime_int_def)

lemma prime_int_3: "prime_int 3"
proof -
  have "{2..<3::int} = {2}" by auto
  then show ?thesis by (simp add: prime_int_def)
qed

lemma prime_int_odd: "prime_int p \<Longrightarrow> 2 < p \<Longrightarrow> odd p"
  unfolding prime_int_def by (metis atLeastLessThan_iff order_refl)

lemma is_prime_sound:
  assumes "is_prime c" "0 \<le> c"
  shows "prime_int c"
proof (cases "c = 2 \<or> c = 3")
  case True
  then show ?thesis using prime_int_2 prime_int_3 by blast
next
  case False
  with assms(1) have c1: "c \<noteq> 1" and odd: "odd c" and loop: "is_prime_loop 3 c"
    by (auto simp: is_prime_def split: if_splits)
  from odd assms(2) c1 False have c5: "5 \<le> c"
    by presburger
  show ?thesis
    unfolding prime_int_def
  proof (intro conjI ballI)
    show "1 < c" using c5 by simp
  next
    fix d assume d: "d \<in> {2..<c}"
    show "\<not> d dvd c"
    proof
      assume dv: "d dvd c"
      then obtain e where e: "c = d * e" by (auto simp: dvd_def)
      have dpos: "0 < d" using d by simp
      have "0 < d * e" using e c5 by simp
      then have epos: "0 < e"
        using dpos by (simp add: zero_less_mult_iff)
      have odd_d: "odd d" and odd_e: "odd e"
        using odd e by simp_all
      have d2: "2 \<le> d" "d < c" using d by simp_all
      have d3: "3 \<le> d" using odd_d d2(1) by presburger
      have "e \<noteq> 1" using e d2(2) by auto
      then have e3: "3 \<le> e" using odd_e epos by presburger
      define x where "x = min d e"
      have x3: "3 \<le> x" using d3 e3 by (simp add: x_def)
      have "even (x - 3)" using odd_d odd_e by (simp add: x_def min_def)
      moreover have "x ^ 2 \<le> c"
      proof -
        have "x * x \<le> d * e"
          using x3 by (intro mult_mono) (simp_all add: x_def)
        then show ?thesis by (simp add: power2_eq_square e)
      qed
      moreover have "x dvd c" using e by (simp add: x_def min_def)
      ultimately show False
        using is_prime_loop_sound [OF loop _ x3] by simp
    qed
  qed
qed

lemma is_prime_complete:
  assumes "prime_int c"
  shows "is_prime c"
proof (cases "c = 2 \<or> c = 3")
  case True
  then show ?thesis by (auto simp: is_prime_def)
next
  case False
  have c1: "1 < c" using assms by (simp add: prime_int_def)
  with False have "2 < c" by simp
  then have odd: "odd c" using assms prime_int_odd by blast
  have "is_prime_loop 3 c"
  proof (rule is_prime_loop_complete)
    fix d :: int assume d: "3 \<le> d" "d ^ 2 \<le> c"
    have "d * 1 < d * d" using d(1) by (intro mult_strict_left_mono) simp_all
    then have "d < c" using d(2) by (simp add: power2_eq_square)
    then have "d \<in> {2..<c}" using d(1) by simp
    then show "\<not> d dvd c" using assms by (simp add: prime_int_def)
  qed simp
  then show ?thesis
    using False c1 odd by (simp add: is_prime_def odd_iff_mod_2_eq_one)
qed

lemma prime_divisor_exists: "1 < n \<Longrightarrow> \<exists>p. prime_int p \<and> p dvd n"
proof (induction "nat n" arbitrary: n rule: less_induct)
  case less
  show ?case
  proof (cases "prime_int n")
    case True
    then show ?thesis by auto
  next
    case False
    then obtain d where d: "d \<in> {2..<n}" "d dvd n"
      using less.prems by (auto simp: prime_int_def)
    then have "nat d < nat n" "1 < d" by auto
    then obtain p where "prime_int p" "p dvd d"
      using less.hyps by blast
    then show ?thesis using d(2) by (meson dvd_trans)
  qed
qed

lemma prime_above: "\<exists>p. n < p \<and> prime_int p"
proof -
  define N :: int where "N = int (fact (nat n)) + 1"
  have "1 < N"
    unfolding N_def using fact_gt_zero [of "nat n", where 'a = nat] by linarith
  then obtain p where p: "prime_int p" "p dvd N"
    using prime_divisor_exists by blast
  have p1: "1 < p" using p(1) by (simp add: prime_int_def)
  have "n < p"
  proof (rule ccontr)
    assume "\<not> n < p"
    then have "nat p \<le> nat n" "1 \<le> nat p" using p1 by auto
    then have "nat p dvd fact (nat n)"
      by (simp add: dvd_fact)
    then have "int (nat p) dvd int (fact (nat n))"
      by (simp only: int_dvd_int_iff)
    then have "p dvd int (fact (nat n))" using p1 by simp
    then have "p dvd 1"
      using p(2) unfolding N_def by (metis dvd_add_right_iff)
    then show False using p1 by simp
  qed
  then show ?thesis using p(1) by blast
qed

lemma odd_prime_above: "\<exists>p. n \<le> p \<and> prime_int p \<and> odd p"
proof -
  obtain p where "max n 2 < p" "prime_int p"
    using prime_above by blast
  then show ?thesis
    using prime_int_odd [of p] by (intro exI [of _ p]) simp
qed

lemma next_prime_loop_terminates:
  "is_prime p \<Longrightarrow> c \<le> p \<Longrightarrow> even (p - c) \<Longrightarrow>
   \<exists>q. next_prime_loop c = Some q \<and> c \<le> q \<and> is_prime q \<and> even (q - c)"
proof (induction "nat (p - c)" arbitrary: c rule: less_induct)
  case less
  show ?case
  proof (cases "is_prime c")
    case True
    then show ?thesis by (subst next_prime_loop.simps) simp
  next
    case False
    then have "c \<noteq> p" using less.prems(1) by blast
    then have le: "c + 2 \<le> p" using less.prems(2,3) by presburger
    then have "nat (p - (c + 2)) < nat (p - c)" by simp
    moreover have "even (p - (c + 2))" using less.prems(3) by simp
    ultimately obtain q where "next_prime_loop (c + 2) = Some q" "c + 2 \<le> q" "is_prime q"
        "even (q - (c + 2))"
      using less.hyps [of "c + 2"] less.prems(1) le by blast
    then show ?thesis
      using False by (subst next_prime_loop.simps) simp
  qed
qed

lemma next_prime_total:
  "\<exists>q. next_prime n = Some q \<and> n \<le> q \<and> is_prime q \<and> odd q"
proof -
  define c where "c = (if n mod 2 = 0 then n + 1 else n)"
  have c: "odd c" "n \<le> c"
    unfolding c_def by (auto simp: even_iff_mod_2_eq_zero)
  obtain p where p: "c \<le> p" "prime_int p" "odd p"
    using odd_prime_above by blast
  have "even (p - c)" using p(3) c(1) by simp
  then obtain q where "next_prime_loop c = Some q" "c \<le> q" "is_prime q" "even (q - c)"
    using next_prime_loop_terminates [OF is_prime_complete [OF p(2)] p(1)] by blast
  then show ?thesis
    using c by (auto simp: next_prime_def c_def [symmetric])
qed

lemma prime_int_dvd_mult:
  assumes "prime_int p" "p dvd a * b"
  shows "p dvd a \<or> p dvd b"
proof (cases "p dvd a")
  case True
  then show ?thesis ..
next
  case False
  have p1: "1 < p" using assms(1) by (simp add: prime_int_def)
  have "coprime p a"
  proof (rule coprimeI)
    fix c assume c: "c dvd p" "c dvd a"
    have "\<bar>c\<bar> dvd p" using c(1) by simp
    then have le: "\<bar>c\<bar> \<le> p" using p1 by (intro zdvd_imp_le) simp_all
    have "c \<noteq> 0" using c(1) p1 by auto
    then have pos: "1 \<le> \<bar>c\<bar>" by simp
    have "\<bar>c\<bar> \<noteq> p" using c(2) False by (metis abs_dvd_iff)
    moreover have "\<bar>c\<bar> \<notin> {2..<p}"
      using assms(1) \<open>\<bar>c\<bar> dvd p\<close> unfolding prime_int_def by blast
    ultimately have "\<bar>c\<bar> = 1" using le pos by simp
    then show "is_unit c" by simp
  qed
  then have "p dvd b"
    using assms(2) by (simp add: coprime_dvd_mult_right_iff)
  then show ?thesis ..
qed

lemma probe_distinct:
  assumes "prime_int p" "0 \<le> i" "i < j" "i + j < p"
  shows "(h + i ^ 2) mod p \<noteq> (h + j ^ 2) mod p"
proof
  assume "(h + i ^ 2) mod p = (h + j ^ 2) mod p"
  then have "p dvd (h + j ^ 2) - (h + i ^ 2)"
    by (metis mod_eq_dvd_iff)
  moreover have "(h + j ^ 2) - (h + i ^ 2) = (j - i) * (j + i)"
    by (simp add: power2_eq_square algebra_simps)
  ultimately have "p dvd j - i \<or> p dvd j + i"
    using prime_int_dvd_mult [OF assms(1)] by simp
  moreover have "\<not> p dvd j - i"
    using assms(2-4) by (intro zdvd_not_zless) simp_all
  moreover have "\<not> p dvd j + i"
    using assms(2-4) by (intro zdvd_not_zless) simp_all
  ultimately show False by blast
qed

section \<open>The probe sequence and the loop of \<open>put\<close>\<close>

lemma da_get_in_range:
  assumes "0 < capacity m" "nat (capacity m) \<le> length (buckets m)"
  shows "da_get (buckets m) (x mod capacity m) = Inr (buckets m ! nat (x mod capacity m))"
proof -
  have "0 \<le> x mod capacity m" "x mod capacity m < capacity m"
    using assms(1) by simp_all
  then show ?thesis
    using assms(2) by (simp add: da_get_def)
qed

lemma mod_in_range:
  assumes "0 < capacity m" "nat (capacity m) \<le> length (buckets m)"
  shows "nat (x mod capacity m) < length (buckets m)"
proof -
  have "0 \<le> x mod capacity m" "x mod capacity m < capacity m"
    using assms(1) by simp_all
  then show ?thesis using assms(2) by linarith
qed

lemma put_loop_stop:
  assumes "0 < capacity m" "nat (capacity m) \<le> length (buckets m)"
    and "put_stops (buckets m ! nat ((h + c ^ 2) mod capacity m)) k"
  shows "put_loop m k v h c ((h + c ^ 2) mod capacity m) =
         Some (Inr (place m k v ((h + c ^ 2) mod capacity m)))"
  using assms(3)
  by (subst put_loop.simps, simp only: da_get_in_range [OF assms(1,2)] sum.case)
    (auto simp: put_stops_def place_def)

lemma put_loop_step:
  assumes "0 < capacity m" "nat (capacity m) \<le> length (buckets m)"
    and "\<not> put_stops (buckets m ! nat ((h + c ^ 2) mod capacity m)) k"
  shows "put_loop m k v h c ((h + c ^ 2) mod capacity m) =
         put_loop m k v h (c + 1) ((h + (c + 1) ^ 2) mod capacity m)"
  using assms(1,3)
  by (subst put_loop.simps, simp only: da_get_in_range [OF assms(1,2)] sum.case)
    (auto simp: put_stops_def py_mod_def)

lemma put_loop_finds:
  assumes "0 < capacity m" "nat (capacity m) \<le> length (buckets m)"
  shows "c \<le> i \<Longrightarrow> put_stops (buckets m ! nat ((h + i ^ 2) mod capacity m)) k \<Longrightarrow>
    \<exists>j. c \<le> j \<and> j \<le> i \<and>
        (\<forall>l. c \<le> l \<and> l < j \<longrightarrow> \<not> put_stops (buckets m ! nat ((h + l ^ 2) mod capacity m)) k) \<and>
        put_stops (buckets m ! nat ((h + j ^ 2) mod capacity m)) k \<and>
        put_loop m k v h c ((h + c ^ 2) mod capacity m) =
          Some (Inr (place m k v ((h + j ^ 2) mod capacity m)))"
proof (induction "nat (i - c)" arbitrary: c rule: less_induct)
  case less
  show ?case
  proof (cases "put_stops (buckets m ! nat ((h + c ^ 2) mod capacity m)) k")
    case True
    then show ?thesis
      using put_loop_stop [OF assms True] less.prems(1) by (intro exI [of _ c]) auto
  next
    case False
    then have "c \<noteq> i" using less.prems(2) by blast
    then have lt: "c + 1 \<le> i" using less.prems(1) by simp
    then have "nat (i - (c + 1)) < nat (i - c)" by simp
    then obtain j where j: "c + 1 \<le> j" "j \<le> i"
        "\<forall>l. c + 1 \<le> l \<and> l < j \<longrightarrow> \<not> put_stops (buckets m ! nat ((h + l ^ 2) mod capacity m)) k"
        "put_stops (buckets m ! nat ((h + j ^ 2) mod capacity m)) k"
        "put_loop m k v h (c + 1) ((h + (c + 1) ^ 2) mod capacity m) =
          Some (Inr (place m k v ((h + j ^ 2) mod capacity m)))"
      using less.hyps [of "c + 1"] lt less.prems(2) by blast
    have "\<forall>l. c \<le> l \<and> l < j \<longrightarrow> \<not> put_stops (buckets m ! nat ((h + l ^ 2) mod capacity m)) k"
    proof (intro allI impI)
      fix l assume l: "c \<le> l \<and> l < j"
      show "\<not> put_stops (buckets m ! nat ((h + l ^ 2) mod capacity m)) k"
      proof (cases "l = c")
        case True
        then show ?thesis using False by simp
      next
        case False
        then show ?thesis using l j(3) by simp
      qed
    qed
    then show ?thesis
      using j put_loop_step [OF assms False, of v] by (intro exI [of _ j]) simp
  qed
qed

lemma count_live_update:
  "i < length xs \<Longrightarrow>
   count_live (xs[i := x]) =
     count_live xs - (if live (xs ! i) then 1 else 0) + (if live x then 1 else 0)"
proof (induction xs arbitrary: i)
  case Nil
  then show ?case by simp
next
  case (Cons a xs)
  show ?case
  proof (cases i)
    case 0
    then show ?thesis by (simp add: count_live_def)
  next
    case (Suc j)
    then show ?thesis
      using Cons.IH [of j] Cons.prems by (auto simp: count_live_def split: if_splits)
  qed
qed

lemma count_live_card:
  "count_live xs = int (card {i. i < length xs \<and> live (xs ! i)})"
  by (simp add: count_live_def length_filter_conv_card)

lemma free_slot_exists:
  assumes p: "prime_int (capacity m)" and len: "nat (capacity m) \<le> length (buckets m)"
    and sz: "size_hm m = count_live (buckets m)" and load: "2 * size_hm m < capacity m"
  shows "\<exists>i. 0 \<le> i \<and> i \<le> (capacity m - 1) div 2 \<and>
             \<not> live (buckets m ! nat ((h + i ^ 2) mod capacity m))"
proof (rule ccontr)
  assume "\<not> ?thesis"
  then have all: "\<And>i. 0 \<le> i \<Longrightarrow> i \<le> (capacity m - 1) div 2 \<Longrightarrow>
      live (buckets m ! nat ((h + i ^ 2) mod capacity m))"
    by blast
  have cap: "1 < capacity m" using p by (simp add: prime_int_def)
  define n where "n = (capacity m - 1) div 2"
  define f where "f = (\<lambda>i::int. nat ((h + i ^ 2) mod capacity m))"
  have n0: "0 \<le> n" using cap by (simp add: n_def)
  have inj: "inj_on f {0..n}"
  proof (rule linorder_inj_onI)
    fix i j assume ij: "i < j" "i \<in> {0..n}" "j \<in> {0..n}"
    then have "i + j < capacity m" unfolding n_def by auto
    then have "(h + i ^ 2) mod capacity m \<noteq> (h + j ^ 2) mod capacity m"
      using probe_distinct [OF p _ ij(1)] ij(2) by simp
    moreover have "0 \<le> (h + i ^ 2) mod capacity m" "0 \<le> (h + j ^ 2) mod capacity m"
      using cap by simp_all
    ultimately show "f i \<noteq> f j" by (simp add: f_def)
  qed auto
  have sub: "f ` {0..n} \<subseteq> {i. i < length (buckets m) \<and> live (buckets m ! i)}"
  proof
    fix x assume "x \<in> f ` {0..n}"
    then obtain i where i: "0 \<le> i" "i \<le> n" "x = f i" by auto
    have "x < length (buckets m)"
      using mod_in_range [OF _ len] cap i(3) by (simp add: f_def)
    moreover have "live (buckets m ! x)"
      using all [OF i(1)] i(2,3) by (simp add: f_def n_def)
    ultimately show "x \<in> {i. i < length (buckets m) \<and> live (buckets m ! i)}" by simp
  qed
  have "card (f ` {0..n}) \<le> card {i. i < length (buckets m) \<and> live (buckets m ! i)}"
    by (rule card_mono [OF _ sub]) simp
  moreover have "card (f ` {0..n}) = nat (n + 1)"
    using inj n0 by (simp add: card_image)
  ultimately have "n + 1 \<le> size_hm m"
    using sz n0 by (simp add: count_live_card)
  then show False using load unfolding n_def by linarith
qed

lemma get_loop_hit:
  assumes "0 < capacity m" "nat (capacity m) \<le> length (buckets m)" "c \<le> capacity m"
    and "matches (buckets m ! nat ((h + c ^ 2) mod capacity m)) k"
  shows "get_loop m k h c ((h + c ^ 2) mod capacity m) =
         Inr (value (the (buckets m ! nat ((h + c ^ 2) mod capacity m))))"
  using assms(3,4)
  by (subst get_loop.simps, simp only: da_get_in_range [OF assms(1,2)] sum.case)
    (auto simp: matches_def)

lemma get_loop_miss:
  assumes "0 < capacity m" "nat (capacity m) \<le> length (buckets m)" "c \<le> capacity m"
    and "\<not> matches (buckets m ! nat ((h + c ^ 2) mod capacity m)) k"
  shows "get_loop m k h c ((h + c ^ 2) mod capacity m) =
         get_loop m k h (c + 1) ((h + (c + 1) ^ 2) mod capacity m)"
  using assms(1,3,4)
  by (subst get_loop.simps, simp only: da_get_in_range [OF assms(1,2)] sum.case)
    (auto simp: matches_def py_mod_def)

lemma get_loop_finds:
  assumes "0 < capacity m" "nat (capacity m) \<le> length (buckets m)" "j \<le> capacity m"
    and "matches (buckets m ! nat ((h + j ^ 2) mod capacity m)) k"
  shows "c \<le> j \<Longrightarrow>
    (\<forall>l. c \<le> l \<and> l < j \<longrightarrow> \<not> matches (buckets m ! nat ((h + l ^ 2) mod capacity m)) k) \<Longrightarrow>
    get_loop m k h c ((h + c ^ 2) mod capacity m) =
      Inr (value (the (buckets m ! nat ((h + j ^ 2) mod capacity m))))"
proof (induction "nat (j - c)" arbitrary: c rule: less_induct)
  case less
  show ?case
  proof (cases "c = j")
    case True
    then show ?thesis
      using get_loop_hit [OF assms(1,2) _ assms(4)] assms(3) by simp
  next
    case False
    then have lt: "c < j" using less.prems(1) by simp
    then have miss: "\<not> matches (buckets m ! nat ((h + c ^ 2) mod capacity m)) k"
      using less.prems(2) by simp
    have "nat (j - (c + 1)) < nat (j - c)" using lt by simp
    moreover have "c + 1 \<le> j" using lt by simp
    moreover have "\<forall>l. c + 1 \<le> l \<and> l < j \<longrightarrow>
        \<not> matches (buckets m ! nat ((h + l ^ 2) mod capacity m)) k"
      using less.prems(2) by simp
    ultimately have "get_loop m k h (c + 1) ((h + (c + 1) ^ 2) mod capacity m) =
        Inr (value (the (buckets m ! nat ((h + j ^ 2) mod capacity m))))"
      by (rule less.hyps)
    moreover have "c \<le> capacity m" using lt assms(3) by simp
    ultimately show ?thesis
      using get_loop_miss [OF assms(1,2) _ miss] by simp
  qed
qed

lemma updated_entry:
  "b \<noteq> None \<Longrightarrow> is_tombstone (the b) = False \<Longrightarrow> key (the b) = k \<Longrightarrow>
   (the b)\<lparr>value := v\<rparr> = new_HashEntry k v"
  by (cases b) (auto simp: new_HashEntry_def)

lemma place_fields:
  "capacity (place m k v i) = capacity m"
  "hash_function (place m k v i) = hash_function m"
  "index_hm (place m k v i) = index_hm m"
  "length (buckets (place m k v i)) = length (buckets m)"
  by (simp_all add: place_def)

lemma place_slot:
  assumes "nat i < length (buckets m)" "put_stops (buckets m ! nat i) k"
  shows "buckets (place m k v i) ! nat i = Some (new_HashEntry k v)"
  using assms by (auto simp: place_def put_stops_def updated_entry)

lemma place_other:
  "x \<noteq> nat i \<Longrightarrow> buckets (place m k v i) ! x = buckets m ! x"
  by (simp add: place_def)

lemma live_new_HashEntry: "live (Some (new_HashEntry k v))"
  by (simp add: live_def new_HashEntry_def)

lemma place_size:
  assumes "nat i < length (buckets m)" "put_stops (buckets m ! nat i) k"
    and "size_hm m = count_live (buckets m)"
  shows "size_hm (place m k v i) = count_live (buckets (place m k v i)) \<and>
         size_hm m \<le> size_hm (place m k v i) \<and> size_hm (place m k v i) \<le> size_hm m + 1"
proof (cases "buckets m ! nat i = None \<or> is_tombstone (the (buckets m ! nat i)) = True")
  case True
  then have "\<not> live (buckets m ! nat i)" by (auto simp: live_def)
  then show ?thesis
    using True assms(1,3) by (simp add: place_def count_live_update live_new_HashEntry)
next
  case False
  then have lv: "live (buckets m ! nat i)" by (auto simp: live_def)
  have "live (Some ((the (buckets m ! nat i))\<lparr>value := v\<rparr>))"
    using False by (simp add: live_def)
  then show ?thesis
    using False assms(1,3) lv by (simp add: place_def count_live_update)
qed

lemma put_loop_total:
  assumes p: "prime_int (capacity m)" and len: "nat (capacity m) \<le> length (buckets m)"
    and sz: "size_hm m = count_live (buckets m)" and load: "2 * size_hm m < capacity m"
  shows "\<exists>m'. put_loop m k v h 0 (h mod capacity m) = Some (Inr m') \<and>
      capacity m' = capacity m \<and> hash_function m' = hash_function m \<and>
      index_hm m' = index_hm m \<and> length (buckets m') = length (buckets m) \<and>
      size_hm m' = count_live (buckets m') \<and> size_hm m \<le> size_hm m' \<and>
      size_hm m' \<le> size_hm m + 1 \<and>
      get_loop m' k h 0 (h mod capacity m) = Inr v \<and>
      (\<exists>i < length (buckets m'). buckets m' ! i = Some (new_HashEntry k v))"
proof -
  have cap: "0 < capacity m" using p by (simp add: prime_int_def)
  obtain i0 where i0: "0 \<le> i0" "i0 \<le> (capacity m - 1) div 2"
      "\<not> live (buckets m ! nat ((h + i0 ^ 2) mod capacity m))"
    using free_slot_exists [OF p len sz load] by blast
  have "put_stops (buckets m ! nat ((h + i0 ^ 2) mod capacity m)) k"
    using i0(3) by (auto simp: live_def put_stops_def)
  then obtain j where j: "0 \<le> j" "j \<le> i0"
      "\<forall>l. 0 \<le> l \<and> l < j \<longrightarrow> \<not> put_stops (buckets m ! nat ((h + l ^ 2) mod capacity m)) k"
      "put_stops (buckets m ! nat ((h + j ^ 2) mod capacity m)) k"
      "put_loop m k v h 0 ((h + 0 ^ 2) mod capacity m) =
          Some (Inr (place m k v ((h + j ^ 2) mod capacity m)))"
    using put_loop_finds [OF cap len i0(1), of h k v] by blast
  define pj where "pj = (h + j ^ 2) mod capacity m"
  define m' where "m' = place m k v pj"
  have rng: "nat pj < length (buckets m)"
    unfolding pj_def by (rule mod_in_range [OF cap len])
  have slot: "buckets m' ! nat pj = Some (new_HashEntry k v)"
    unfolding m'_def using rng j(4) by (intro place_slot) (simp_all add: pj_def)
  have cap': "0 < capacity m'" "nat (capacity m') \<le> length (buckets m')"
    using cap len by (simp_all add: m'_def place_fields)
  have jle: "j \<le> capacity m'"
    using j(2) i0(2) cap by (simp add: m'_def place_fields)
  have hit: "matches (buckets m' ! nat ((h + j ^ 2) mod capacity m')) k"
    using slot by (simp add: m'_def place_fields pj_def matches_def new_HashEntry_def)
  have miss: "\<forall>l. 0 \<le> l \<and> l < j \<longrightarrow>
      \<not> matches (buckets m' ! nat ((h + l ^ 2) mod capacity m')) k"
  proof (intro allI impI)
    fix l assume l: "0 \<le> l \<and> l < j"
    then have ns: "\<not> put_stops (buckets m ! nat ((h + l ^ 2) mod capacity m)) k"
      using j(3) by blast
    then have "nat ((h + l ^ 2) mod capacity m) \<noteq> nat pj"
      using j(4) unfolding pj_def by metis
    then have "buckets m' ! nat ((h + l ^ 2) mod capacity m) =
        buckets m ! nat ((h + l ^ 2) mod capacity m)"
      unfolding m'_def by (rule place_other)
    then show "\<not> matches (buckets m' ! nat ((h + l ^ 2) mod capacity m')) k"
      using ns by (auto simp: m'_def place_fields matches_def put_stops_def)
  qed
  have "get_loop m' k h 0 ((h + 0 ^ 2) mod capacity m') =
      Inr (value (the (buckets m' ! nat ((h + j ^ 2) mod capacity m'))))"
    using get_loop_finds [OF cap' jle hit j(1)] miss by blast
  then have get: "get_loop m' k h 0 (h mod capacity m) = Inr v"
    using slot by (simp add: m'_def place_fields pj_def new_HashEntry_def)
  have "size_hm m' = count_live (buckets m') \<and> size_hm m \<le> size_hm m' \<and>
      size_hm m' \<le> size_hm m + 1"
    unfolding m'_def using rng _ sz by (rule place_size) (use j(4) in \<open>simp add: pj_def\<close>)
  moreover have "put_loop m k v h 0 (h mod capacity m) = Some (Inr m')"
    using j(5) by (simp add: m'_def pj_def)
  moreover have "\<exists>i < length (buckets m'). buckets m' ! i = Some (new_HashEntry k v)"
    using slot rng by (intro exI [of _ "nat pj"]) (simp add: m'_def place_fields)
  ultimately show ?thesis
    using get by (intro exI [of _ m']) (simp add: m'_def place_fields)
qed

section \<open>\<open>put\<close> and \<open>resize_table\<close> return, and what every reachable table satisfies\<close>

lemma count_live_nonneg: "0 \<le> count_live xs"
  by (simp add: count_live_def)

lemma count_live_Cons: "count_live (x # xs) = (if live x then 1 else 0) + count_live xs"
  by (simp add: count_live_def)

lemma count_live_replicate_None: "count_live (replicate n None) = 0"
  by (simp add: count_live_def live_def)

lemma count_live_take: "count_live (take n xs) \<le> count_live xs"
proof -
  have "xs = take n xs @ drop n xs" by simp
  then have "count_live xs = count_live (take n xs) + count_live (drop n xs)"
    unfolding count_live_def by (metis filter_append length_append of_nat_add)
  then show ?thesis using count_live_nonneg [of "drop n xs"] by simp
qed

lemma table_inv_cap: "table_inv m \<Longrightarrow> 1 < capacity m"
  by (simp add: table_inv_def prime_int_def)

lemma put_from_loaded:
  assumes inv: "table_inv m" and load: "2 * size_hm m < capacity m"
  shows "\<exists>m'. (case py_mod (hash_function m k + 0 ^ 2) (capacity m) of
                 Inl e \<Rightarrow> Some (Inl e)
               | Inr i \<Rightarrow> put_loop m k v (hash_function m k) 0 i) = Some (Inr m') \<and>
      table_inv m' \<and> capacity m' = capacity m \<and> size_hm m' \<le> size_hm m + 1 \<and>
      hash_function m' = hash_function m \<and> index_hm m' = index_hm m \<and> get m' k = Inr v \<and>
      (\<exists>i < length (buckets m'). buckets m' ! i = Some (new_HashEntry k v))"
proof -
  have p: "prime_int (capacity m)" and len: "nat (capacity m) \<le> length (buckets m)"
    and sz: "size_hm m = count_live (buckets m)"
    using inv by (simp_all add: table_inv_def)
  have cap: "capacity m \<noteq> 0" using table_inv_cap [OF inv] by simp
  obtain m' where m': "put_loop m k v (hash_function m k) 0 (hash_function m k mod capacity m) = Some (Inr m')"
      "capacity m' = capacity m" "hash_function m' = hash_function m"
      "index_hm m' = index_hm m" "length (buckets m') = length (buckets m)"
      "size_hm m' = count_live (buckets m')" "size_hm m \<le> size_hm m'"
      "size_hm m' \<le> size_hm m + 1"
      "get_loop m' k (hash_function m k) 0 (hash_function m k mod capacity m) = Inr v"
      "\<exists>i < length (buckets m'). buckets m' ! i = Some (new_HashEntry k v)"
    using put_loop_total [OF p len sz load, of k v "hash_function m k"] by blast
  have "table_inv m'"
    using p len load m'(2,5,6,8) by (simp add: table_inv_def)
  moreover have "get m' k = Inr v"
    using m'(2,3,9) cap by (simp add: get_def py_mod_def)
  ultimately show ?thesis
    using m' cap by (intro exI [of _ m']) (simp add: py_mod_def)
qed

lemma put_ok_from_resize_ok:
  assumes inv: "table_inv m" and r: "resize_ok m"
  shows "put_ok m"
  unfolding put_ok_def
proof (intro allI)
  fix k v
  have cap: "1 < capacity m" by (rule table_inv_cap [OF inv])
  have half: "2 * size_hm m \<le> capacity m + 1"
    using inv by (simp add: table_inv_def)
  have ld: "table_load m = Inr (of_int (size_hm m) / of_int (capacity m))"
    using cap by (simp add: table_load_def)
  have cmp: "((1::rat) / 2 \<le> of_int (size_hm m) / of_int (capacity m)) = (capacity m \<le> 2 * size_hm m)"
  proof -
    have "((1::rat) / 2 \<le> of_int (size_hm m) / of_int (capacity m)) =
          (of_int (capacity m) \<le> (of_int (2 * size_hm m) :: rat))"
      using cap by (simp add: field_simps)
    then show ?thesis by (simp only: of_int_le_iff)
  qed
  obtain m1 where m1: "(if capacity m \<le> 2 * size_hm m
        then resize_table m (capacity m * 2) else Some (Inr m)) = Some (Inr m1)"
      "table_inv m1" "capacity m \<le> capacity m1" "size_hm m1 \<le> size_hm m"
      "hash_function m1 = hash_function m" "index_hm m1 = index_hm m"
      "2 * size_hm m1 < capacity m1"
  proof (cases "capacity m \<le> 2 * size_hm m")
    case True
    have "size_hm m \<le> capacity m * 2" using half cap by simp
    then obtain m1 where "resize_table m (capacity m * 2) = Some (Inr m1)" "table_inv m1"
        "capacity m * 2 \<le> capacity m1" "size_hm m1 \<le> size_hm m"
        "hash_function m1 = hash_function m" "index_hm m1 = index_hm m"
      using r unfolding resize_ok_def by blast
    then show ?thesis
      using True half cap by (intro that [of m1]) simp_all
  next
    case False
    then show ?thesis
      using inv by (intro that [of m]) simp_all
  qed
  obtain m' where m': "(case py_mod (hash_function m1 k + 0 ^ 2) (capacity m1) of
                 Inl e \<Rightarrow> Some (Inl e)
               | Inr i \<Rightarrow> put_loop m1 k v (hash_function m1 k) 0 i) = Some (Inr m')"
      "table_inv m'" "capacity m' = capacity m1" "size_hm m' \<le> size_hm m1 + 1"
      "hash_function m' = hash_function m1" "index_hm m' = index_hm m1" "get m' k = Inr v"
      "\<exists>i < length (buckets m'). buckets m' ! i = Some (new_HashEntry k v)"
    using put_from_loaded [OF m1(2,7), of k v] by blast
  have "put m k v = Some (Inr m')"
    by (subst put_unfold) (simp only: ld sum.case cmp m1(1) Option.bind.simps m'(1))
  then show "\<exists>m'. put m k v = Some (Inr m') \<and> table_inv m' \<and> capacity m \<le> capacity m' \<and>
        size_hm m' \<le> size_hm m + 1 \<and> hash_function m' = hash_function m \<and>
        index_hm m' = index_hm m \<and> get m' k = Inr v \<and>
        (\<exists>i < length (buckets m'). buckets m' ! i = Some (new_HashEntry k v))"
    using m' m1 by (intro exI [of _ m']) simp
qed

lemma reinsert_total:
  assumes H: "\<And>m. table_inv m \<Longrightarrow> size_hm m < s \<Longrightarrow> put_ok m"
    and len: "nat ct \<le> length bt"
  shows "0 \<le> idx \<Longrightarrow> table_inv m \<Longrightarrow>
     size_hm m + count_live (drop (nat idx) (take (nat ct) bt)) \<le> s \<Longrightarrow>
     \<exists>m'. reinsert bt ct idx m = Some (Inr m') \<and> table_inv m' \<and> capacity m \<le> capacity m' \<and>
       size_hm m' \<le> size_hm m + count_live (drop (nat idx) (take (nat ct) bt)) \<and>
       hash_function m' = hash_function m \<and> index_hm m' = index_hm m"
proof (induction "nat (ct - idx)" arbitrary: idx m rule: less_induct)
  case less
  show ?case
  proof (cases "idx < ct")
    case False
    then have "reinsert bt ct idx m = Some (Inr m)"
      by (subst reinsert_unfold) simp
    then show ?thesis
      using less.prems(2) count_live_nonneg [of "drop (nat idx) (take (nat ct) bt)"]
      by (intro exI [of _ m]) simp
  next
    case True
    define b where "b = bt ! nat idx"
    define rest where "rest = count_live (drop (nat (idx + 1)) (take (nat ct) bt))"
    have rng: "nat idx < nat ct" using True less.prems(1) by simp
    have "idx < int (length bt)" using rng len by linarith
    then have dg: "da_get bt idx = Inr b"
      using less.prems(1) by (simp add: da_get_def b_def)
    have "drop (nat idx) (take (nat ct) bt) =
        take (nat ct) bt ! nat idx # drop (Suc (nat idx)) (take (nat ct) bt)"
      using rng len by (intro Cons_nth_drop_Suc [symmetric]) simp
    moreover have "Suc (nat idx) = nat (idx + 1)" using less.prems(1) by simp
    ultimately have dr: "count_live (drop (nat idx) (take (nat ct) bt)) =
        (if live b then 1 else 0) + rest"
      using rng by (simp add: count_live_Cons b_def rest_def)
    have rest0: "0 \<le> rest" unfolding rest_def by (rule count_live_nonneg)
    have dec: "nat (ct - (idx + 1)) < nat (ct - idx)" using True by simp
    have idx1: "0 \<le> idx + 1" using less.prems(1) by simp
    show ?thesis
    proof (cases "live b")
      case lv: True
      then have cond: "(b \<noteq> None \<and> is_tombstone (the b) = False) = True"
        by (simp add: live_def)
      have "size_hm m < s" using less.prems(3) dr lv rest0 by simp
      then have "put_ok m" using H less.prems(2) by blast
      then obtain m1 where m1: "put m (key (the b)) (value (the b)) = Some (Inr m1)"
          "table_inv m1" "capacity m \<le> capacity m1" "size_hm m1 \<le> size_hm m + 1"
          "hash_function m1 = hash_function m" "index_hm m1 = index_hm m"
        unfolding put_ok_def by blast
      have "size_hm m1 + count_live (drop (nat (idx + 1)) (take (nat ct) bt)) \<le> s"
        using less.prems(3) dr lv m1(4) by (simp add: rest_def)
      then obtain m' where m': "reinsert bt ct (idx + 1) m1 = Some (Inr m')" "table_inv m'"
          "capacity m1 \<le> capacity m'" "size_hm m' \<le> size_hm m1 + rest"
          "hash_function m' = hash_function m1" "index_hm m' = index_hm m1"
        using less.hyps [OF dec idx1 m1(2)] unfolding rest_def by blast
      have "reinsert bt ct idx m = Some (Inr m')"
        by (subst reinsert_unfold)
          (simp only: True if_True dg sum.case cond m1(1) Option.bind.simps m'(1))
      then show ?thesis
        using m' m1 dr lv by (intro exI [of _ m']) simp
    next
      case nl: False
      then have cond: "(b \<noteq> None \<and> is_tombstone (the b) = False) = False"
        by (simp add: live_def)
      have "size_hm m + count_live (drop (nat (idx + 1)) (take (nat ct) bt)) \<le> s"
        using less.prems(3) dr nl by (simp add: rest_def)
      then obtain m' where m': "reinsert bt ct (idx + 1) m = Some (Inr m')" "table_inv m'"
          "capacity m \<le> capacity m'" "size_hm m' \<le> size_hm m + rest"
          "hash_function m' = hash_function m" "index_hm m' = index_hm m"
        using less.hyps [OF dec idx1 less.prems(2)] unfolding rest_def by blast
      have "reinsert bt ct idx m = Some (Inr m')"
        by (subst reinsert_unfold) (simp only: True if_True dg sum.case cond if_False m'(1))
      then show ?thesis
        using m' dr nl by (intro exI [of _ m']) simp
    qed
  qed
qed

lemma clear_total:
  "\<exists>q. capacity m \<le> q \<and> clear m = Some (m\<lparr>buckets := replicate (nat q) None, size_hm := 0\<rparr>)"
proof -
  obtain q where "next_prime (capacity m) = Some q" "capacity m \<le> q"
    using next_prime_total by blast
  then show ?thesis
    by (intro exI [of _ q]) (simp add: clear_def HashMap_init_def)
qed

lemma resize_ok_from_put_ok:
  assumes inv: "table_inv m"
    and H: "\<And>m'. table_inv m' \<Longrightarrow> size_hm m' < size_hm m \<Longrightarrow> put_ok m'"
  shows "resize_ok m"
  unfolding resize_ok_def
proof (intro allI impI)
  fix nc assume nc: "size_hm m \<le> nc"
  have sz: "size_hm m = count_live (buckets m)" and len: "nat (capacity m) \<le> length (buckets m)"
    using inv by (simp_all add: table_inv_def)
  have sz0: "0 \<le> size_hm m" unfolding sz by (rule count_live_nonneg)
  obtain nc' where nc': "(if \<not> is_prime nc then next_prime nc else Some nc) = Some nc'"
      "nc \<le> nc'" "is_prime nc'"
  proof (cases "is_prime nc")
    case True
    then show ?thesis by (intro that [of nc]) simp_all
  next
    case False
    obtain q where "next_prime nc = Some q" "nc \<le> q" "is_prime q"
      using next_prime_total by blast
    then show ?thesis using False by (intro that [of q]) simp_all
  qed
  have pr: "prime_int nc'"
    using nc'(2,3) nc sz0 by (intro is_prime_sound) simp_all
  obtain q where q: "clear m = Some (m\<lparr>buckets := replicate (nat q) None, size_hm := 0\<rparr>)"
    using clear_total by blast
  define m0 where "m0 = m\<lparr>buckets := replicate (nat q) None, size_hm := 0\<rparr>
      \<lparr>buckets := replicate (nat nc') None, size_hm := 0, capacity := nc'\<rparr>"
  have inv0: "table_inv m0"
    using pr by (simp add: table_inv_def m0_def count_live_replicate_None prime_int_def)
  have "size_hm m0 + count_live (drop (nat 0) (take (nat (capacity m)) (buckets m))) \<le> size_hm m"
    using count_live_take [of "nat (capacity m)" "buckets m"] by (simp add: m0_def sz)
  then obtain m' where m': "reinsert (buckets m) (capacity m) 0 m0 = Some (Inr m')"
      "table_inv m'" "capacity m0 \<le> capacity m'"
      "size_hm m' \<le> size_hm m0 + count_live (drop (nat 0) (take (nat (capacity m)) (buckets m)))"
      "hash_function m' = hash_function m0" "index_hm m' = index_hm m0"
    using reinsert_total [where s = "size_hm m" and idx = 0 and m = m0 and bt = "buckets m"
        and ct = "capacity m", OF H len _ inv0] by blast
  have "resize_table m nc = Some (Inr m')"
    using nc by (subst resize_table_unfold)
      (simp only: nc'(1) q option.case m'(1) [unfolded m0_def] if_False not_less [symmetric])
  moreover have "size_hm m' \<le> size_hm m"
    using m'(4) count_live_take [of "nat (capacity m)" "buckets m"] by (simp add: m0_def sz)
  ultimately show "\<exists>m'. resize_table m nc = Some (Inr m') \<and> table_inv m' \<and> nc \<le> capacity m' \<and>
           size_hm m' \<le> size_hm m \<and> hash_function m' = hash_function m \<and>
           index_hm m' = index_hm m"
    using m' nc'(2) by (intro exI [of _ m']) (simp add: m0_def)
qed

lemma put_resize_ok: "table_inv m \<Longrightarrow> put_ok m \<and> resize_ok m"
proof (induction "nat (size_hm m)" arbitrary: m rule: less_induct)
  case less
  have sz0: "0 \<le> size_hm m"
    using less.prems count_live_nonneg by (simp add: table_inv_def)
  have "resize_ok m"
  proof (rule resize_ok_from_put_ok [OF less.prems])
    fix m' assume "table_inv m'" "size_hm m' < size_hm m"
    moreover from this have "nat (size_hm m') < nat (size_hm m)"
      using count_live_nonneg [of "buckets m'"] by (simp add: table_inv_def)
    ultimately show "put_ok m'" using less.hyps by blast
  qed
  then show ?case
    using put_ok_from_resize_ok [OF less.prems] by simp
qed

lemma table_inv_index: "table_inv (m\<lparr>index_hm := i\<rparr>) = table_inv m"
  by (simp add: table_inv_def)

lemma tombstone_inv:
  assumes "table_inv m" "i < length (buckets m)" "live (buckets m ! i)"
  shows "table_inv (m\<lparr>buckets := (buckets m)[i := Some ((the (buckets m ! i))\<lparr>is_tombstone := True\<rparr>)],
                     size_hm := size_hm m - 1\<rparr>)"
proof -
  have "\<not> live (Some ((the (buckets m ! i))\<lparr>is_tombstone := True\<rparr>))"
    by (simp add: live_def)
  then show ?thesis
    using assms by (simp add: table_inv_def count_live_update)
qed

lemma remove_loop_inv:
  "remove_loop m k h c s = Inr m' \<Longrightarrow> table_inv m \<Longrightarrow> table_inv m'"
proof (induction m k h c s rule: remove_loop.induct)
  case (1 m k hash_val count start_index)
  show ?case
  proof (cases "count \<le> capacity m")
    case False
    then have "m' = m" using 1(2) by (subst (asm) remove_loop.simps) simp
    then show ?thesis using 1(3) by simp
  next
    case le: True
    show ?thesis
    proof (cases "da_get (buckets m) start_index")
      case (Inl e)
      then show ?thesis using 1(2) le by (subst (asm) remove_loop.simps) simp
    next
      case dg: (Inr b)
      then have rng: "nat start_index < length (buckets m)"
        and b: "b = buckets m ! nat start_index"
        by (auto simp: da_get_def split: if_splits)
      show ?thesis
      proof (cases "b \<noteq> None \<and> key (the b) = k \<and> is_tombstone (the b) = False")
        case True
        then have cond: "(b \<noteq> None \<and> key (the b) = k \<and> is_tombstone (the b) = False) = True"
          by simp
        have "live (buckets m ! nat start_index)" using True by (simp add: live_def b)
        then have "table_inv (m\<lparr>buckets := (buckets m)[nat start_index :=
              Some ((the (buckets m ! nat start_index))\<lparr>is_tombstone := True\<rparr>)],
            size_hm := size_hm m - 1\<rparr>)"
          using 1(3) rng by (intro tombstone_inv)
        moreover have "remove_loop m k hash_val count start_index =
            Inr (m\<lparr>buckets := (buckets m)[nat start_index :=
              Some ((the (buckets m ! nat start_index))\<lparr>is_tombstone := True\<rparr>)],
            size_hm := size_hm m - 1\<rparr>)"
          by (subst remove_loop.simps, simp only: le if_True dg sum.case cond) (simp add: b)
        ultimately show ?thesis using 1(2) by simp
      next
        case False
        then have cond: "(b \<noteq> None \<and> key (the b) = k \<and> is_tombstone (the b) = False) = False"
          by simp
        have step: "remove_loop m k hash_val count start_index =
            (case py_mod (hash_val + (count + 1)\<^sup>2) (capacity m) of
               Inl e \<Rightarrow> Inl e
             | Inr i \<Rightarrow> remove_loop m k hash_val (count + 1) i)"
          by (subst remove_loop.simps, simp only: le if_True dg sum.case cond if_False)
        show ?thesis
        proof (cases "py_mod (hash_val + (count + 1)\<^sup>2) (capacity m)")
          case (Inl e)
          then show ?thesis using 1(2) step by simp
        next
          case pm: (Inr i)
          then have "remove_loop m k hash_val (count + 1) i = Inr m'"
            using 1(2) step by simp
          then show ?thesis
            using 1(1) [OF le dg False pm] 1(3) by simp
        qed
      qed
    qed
  qed
qed

lemma remove_inv: "remove m k = Inr m' \<Longrightarrow> table_inv m \<Longrightarrow> table_inv m'"
  unfolding remove_def
  by (cases "py_mod (hash_function m k + 0\<^sup>2) (capacity m)") (auto dest: remove_loop_inv)

lemma init_inv:
  assumes "0 \<le> cap" "HashMap_init cap function = Some m"
  shows "table_inv m"
proof -
  obtain q where q: "next_prime cap = Some q" "cap \<le> q" "is_prime q"
    using next_prime_total by blast
  then have "prime_int q" using assms(1) by (intro is_prime_sound) simp_all
  moreover have "m = \<lparr>buckets = replicate (nat q) None, capacity = q,
      hash_function = function, size_hm = 0, index_hm = None\<rparr>"
    using assms(2) q(1) by (simp add: HashMap_init_def)
  ultimately show ?thesis
    by (simp add: table_inv_def count_live_replicate_None prime_int_def)
qed

lemma clear_inv:
  assumes "clear m = Some m'" "table_inv m"
  shows "table_inv m'"
proof -
  obtain q where "capacity m \<le> q"
      "clear m = Some (m\<lparr>buckets := replicate (nat q) None, size_hm := 0\<rparr>)"
    using clear_total by blast
  then show ?thesis
    using assms by (auto simp: table_inv_def count_live_replicate_None prime_int_def)
qed

lemma put_inv:
  assumes "put m k v = Some (Inr m')" "table_inv m"
  shows "table_inv m'"
  using put_resize_ok [OF assms(2)] assms(1) unfolding put_ok_def by (metis option.inject sum.inject(2))

lemma resize_inv:
  assumes "resize_table m nc = Some (Inr m')" "table_inv m"
  shows "table_inv m'"
proof (cases "nc < size_hm m")
  case True
  then have "m' = m" using assms(1) by (simp add: resize_table_unfold)
  then show ?thesis using assms(2) by simp
next
  case False
  then have "size_hm m \<le> nc" by simp
  then show ?thesis
    using put_resize_ok [OF assms(2)] assms(1) unfolding resize_ok_def
    by (metis option.inject sum.inject(2))
qed

lemma hm_next_inv:
  assumes "hm_next m = Inr (x, m')" "table_inv m"
  shows "table_inv m'"
  using assms
  by (auto simp: hm_next_def table_inv_index split: option.splits sum.splits if_splits)

lemma reachable_inv: "reachable m \<Longrightarrow> table_inv m"
proof (induction rule: reachable.induct)
  case (reach_init cap f m)
  then show ?case by (rule init_inv)
next
  case (reach_put m k v m')
  then show ?case using put_inv by blast
next
  case (reach_remove m k m')
  then show ?case using remove_inv by blast
next
  case (reach_resize m new_capacity m')
  then show ?case using resize_inv by blast
next
  case (reach_clear m m')
  then show ?case using clear_inv by blast
next
  case (reach_iter m)
  then show ?case by (simp add: hm_iter_def table_inv_index)
next
  case (reach_next m x m')
  then show ?case using hm_next_inv by blast
qed

section \<open>Lookups of an absent key\<close>

lemma absent_slot:
  assumes "absent m k" "0 < capacity m" "nat (capacity m) \<le> length (buckets m)"
  shows "(buckets m ! nat (x mod capacity m) \<noteq> None \<and>
            key (the (buckets m ! nat (x mod capacity m))) = k \<and>
            is_tombstone (the (buckets m ! nat (x mod capacity m))) = False) = False"
proof -
  have "0 \<le> x mod capacity m" "x mod capacity m < capacity m"
    using assms(2) by simp_all
  then have "nat (x mod capacity m) < length (buckets m)"
    using assms(3) by linarith
  then have "buckets m ! nat (x mod capacity m) \<in> set (buckets m)"
    by simp
  then show ?thesis
    using assms(1) unfolding absent_def by blast
qed

lemma get_loop_absent:
  assumes "absent m k" "0 < capacity m" "nat (capacity m) \<le> length (buckets m)"
  shows "get_loop m k h c ((h + c ^ 2) mod capacity m) = Inr PyNone"
proof (induction "nat (capacity m + 1 - c)" arbitrary: c)
  case 0
  then show ?case by (subst get_loop.simps) simp
next
  case (Suc n)
  then have le: "c \<le> capacity m" by linarith
  from Suc have "n = nat (capacity m + 1 - (c + 1))" by linarith
  then have ih: "get_loop m k h (c + 1) ((h + (c + 1) ^ 2) mod capacity m) = Inr PyNone"
    by (rule Suc.hyps(1))
  have up: "[c..capacity m] = c # [c + 1..capacity m]"
    using le by (simp add: upto_rec1)
  have ne: "capacity m \<noteq> 0"
    using assms(2) by simp
  show ?case
    by (subst get_loop.simps,
        simp only: da_get_in_range [OF assms(2,3)] sum.case absent_slot [OF assms] if_False,
        simp add: py_mod_def ih le up ne)
qed

lemma remove_loop_absent:
  assumes "absent m k" "0 < capacity m" "nat (capacity m) \<le> length (buckets m)"
  shows "remove_loop m k h c ((h + c ^ 2) mod capacity m) = Inr m"
proof (induction "nat (capacity m + 1 - c)" arbitrary: c)
  case 0
  then show ?case by (subst remove_loop.simps) simp
next
  case (Suc n)
  then have le: "c \<le> capacity m" by linarith
  from Suc have "n = nat (capacity m + 1 - (c + 1))" by linarith
  then have ih: "remove_loop m k h (c + 1) ((h + (c + 1) ^ 2) mod capacity m) = Inr m"
    by (rule Suc.hyps(1))
  have up: "[c..capacity m] = c # [c + 1..capacity m]"
    using le by (simp add: upto_rec1)
  have ne: "capacity m \<noteq> 0"
    using assms(2) by simp
  show ?case
    by (subst remove_loop.simps,
        simp only: da_get_in_range [OF assms(2,3)] sum.case absent_slot [OF assms] if_False,
        simp add: py_mod_def ih le up ne)
qed

lemma get_probes_absent:
  assumes "absent m k" "0 < capacity m" "nat (capacity m) \<le> length (buckets m)"
  shows "get_probes m k h c ((h + c ^ 2) mod capacity m) =
         map (\<lambda>i. (h + i ^ 2) mod capacity m) [c..capacity m]"
proof (induction "nat (capacity m + 1 - c)" arbitrary: c)
  case 0
  then show ?case by (subst get_probes.simps) simp
next
  case (Suc n)
  then have le: "c \<le> capacity m" by linarith
  from Suc have "n = nat (capacity m + 1 - (c + 1))" by linarith
  then have ih: "get_probes m k h (c + 1) ((h + (c + 1) ^ 2) mod capacity m) =
         map (\<lambda>i. (h + i ^ 2) mod capacity m) [c + 1..capacity m]"
    by (rule Suc.hyps(1))
  have up: "[c..capacity m] = c # [c + 1..capacity m]"
    using le by (simp add: upto_rec1)
  have ne: "capacity m \<noteq> 0"
    using assms(2) by simp
  show ?case
    by (subst get_probes.simps,
        simp only: da_get_in_range [OF assms(2,3)] sum.case absent_slot [OF assms] if_False,
        simp add: py_mod_def ih le up ne)
qed

lemma remove_probes_absent:
  assumes "absent m k" "0 < capacity m" "nat (capacity m) \<le> length (buckets m)"
  shows "remove_probes m k h c ((h + c ^ 2) mod capacity m) =
         map (\<lambda>i. (h + i ^ 2) mod capacity m) [c..capacity m]"
proof (induction "nat (capacity m + 1 - c)" arbitrary: c)
  case 0
  then show ?case by (subst remove_probes.simps) simp
next
  case (Suc n)
  then have le: "c \<le> capacity m" by linarith
  from Suc have "n = nat (capacity m + 1 - (c + 1))" by linarith
  then have ih: "remove_probes m k h (c + 1) ((h + (c + 1) ^ 2) mod capacity m) =
         map (\<lambda>i. (h + i ^ 2) mod capacity m) [c + 1..capacity m]"
    by (rule Suc.hyps(1))
  have up: "[c..capacity m] = c # [c + 1..capacity m]"
    using le by (simp add: upto_rec1)
  have ne: "capacity m \<noteq> 0"
    using assms(2) by simp
  show ?case
    by (subst remove_probes.simps,
        simp only: da_get_in_range [OF assms(2,3)] sum.case absent_slot [OF assms] if_False,
        simp add: py_mod_def ih le up ne)
qed


lemma get_trace_ex0: "get_trace ex0 ''a'' = [1, 2, 2, 1]"
  by (simp add: get_trace_def get_probes.simps ex0_def py_mod_def ord_sum_a da_get_def)

lemma remove_trace_ex0: "remove_trace ex0 ''a'' = [1, 2, 2, 1]"
  by (simp add: remove_trace_def remove_probes.simps ex0_def py_mod_def ord_sum_a da_get_def)

lemma get_ex0: "get ex0 ''a'' = Inr PyNone"
  by (simp add: get_def get_loop.simps ex0_def py_mod_def ord_sum_a da_get_def)

lemma remove_ex0: "remove ex0 ''a'' = Inr ex0"
  by (simp add: remove_def remove_loop.simps ex0_def py_mod_def ord_sum_a da_get_def)

text \<open>
  C6, as the claim states it, fails. The claim: for an absent key, \<open>get\<close> and
  \<open>remove\<close> examine no more than \<open>C = capacity\<close> probe positions. In the empty table
  of capacity 3 both read four slots for the key \<open>a\<close>: the loop condition is
  \<open>count <= self._capacity\<close>, so \<open>count\<close> takes the values 0 to 3.
\<close>

theorem absent_key_four_probes_in_capacity_three:
  "get_capacity ex0 = 3 \<and> get ex0 ''a'' = Inr PyNone \<and> remove ex0 ''a'' = Inr ex0 \<and>
   get_trace ex0 ''a'' = [1, 2, 2, 1] \<and> remove_trace ex0 ''a'' = [1, 2, 2, 1] \<and>
   \<not> length (get_trace ex0 ''a'') \<le> nat (get_capacity ex0)"
  by (simp add: get_trace_ex0 remove_trace_ex0 get_ex0 remove_ex0 get_capacity_def)
    (simp add: ex0_def)

text \<open>
  C6, amended. In a table whose capacity is positive and whose array has at least
  \<open>capacity\<close> slots, for a key that is absent, \<open>get\<close> returns \<open>None\<close> and
  \<open>remove\<close> leaves the table as it was, each after reading exactly \<open>capacity + 1\<close>
  slots: those of the sequence \<open>(hash(key) + i\<^sup>2) mod capacity\<close> for \<open>i\<close> from 0 to
  \<open>capacity\<close>, both ends included.
\<close>

theorem absent_key_probes:
  assumes "absent m k" "0 < capacity m" "nat (capacity m) \<le> length (buckets m)"
  shows "get m k = Inr PyNone \<and> remove m k = Inr m \<and>
         get_trace m k = map (\<lambda>i. (hash_function m k + i ^ 2) mod capacity m) [0..capacity m] \<and>
         remove_trace m k = get_trace m k \<and>
         length (get_trace m k) = nat (capacity m) + 1"
  using assms(2) get_loop_absent [OF assms, of "hash_function m k" 0]
    remove_loop_absent [OF assms, of "hash_function m k" 0]
    get_probes_absent [OF assms, of "hash_function m k" 0]
    remove_probes_absent [OF assms, of "hash_function m k" 0]
  by (simp add: get_def remove_def get_trace_def remove_trace_def py_mod_def)

theorem absent_key_probes_witness:
  "absent ex0 ''a'' \<and> get ex0 ''a'' = Inr PyNone \<and> remove ex0 ''a'' = Inr ex0 \<and>
   length (get_trace ex0 ''a'') = 4 \<and> length (remove_trace ex0 ''a'') = 4"
proof -
  have a: "absent ex0 ''a''"
    by (simp add: absent_def ex0_def)
  have b: "0 < capacity ex0"
    by (simp add: ex0_def)
  have c: "nat (capacity ex0) \<le> length (buckets ex0)"
    by (simp add: ex0_def)
  show ?thesis
    using a absent_key_probes [OF a b c] by (simp add: ex0_def)
qed

section \<open>Iteration\<close>

lemma hm_next_live:
  assumes "index_hm m = Some (int i)" "i < length (buckets m)" "live (buckets m ! i)"
  shows "hm_next m = Inr (the (buckets m ! i), m\<lparr>index_hm := Some (int (Suc i))\<rparr>)"
  using assms by (simp add: hm_next_def da_get_def live_def add.commute)

lemma hm_next_gap:
  assumes "index_hm m = Some (int i)" "i < length (buckets m)" "\<not> live (buckets m ! i)"
  shows "hm_next m = Inl StopIteration"
  using assms by (auto simp add: hm_next_def da_get_def live_def)

lemma hm_next_end:
  assumes "index_hm m = Some (int i)" "length (buckets m) \<le> i"
  shows "hm_next m = Inl DynamicArrayException"
  using assms by (simp add: hm_next_def da_get_def)

lemma drain_from:
  assumes "index_hm m = Some (int i)"
  shows "drain m =
     (map the (takeWhile live (drop i (buckets m))),
      if \<exists>b \<in> set (drop i (buckets m)). \<not> live b then StopIteration
      else DynamicArrayException)"
  using assms
proof (induction "length (buckets m) - i" arbitrary: m i)
  case 0
  then have "hm_next m = Inl DynamicArrayException"
    by (intro hm_next_end) auto
  moreover have "drop i (buckets m) = []"
    using 0 by simp
  ultimately show ?case
    by (subst drain.simps) simp
next
  case (Suc n)
  then have lt: "i < length (buckets m)"
    by simp
  then have eq: "drop i (buckets m) = buckets m ! i # drop (Suc i) (buckets m)"
    by (simp add: Cons_nth_drop_Suc)
  show ?case
  proof (cases "live (buckets m ! i)")
    case True
    let ?m' = "m\<lparr>index_hm := Some (int (Suc i))\<rparr>"
    have nxt: "hm_next m = Inr (the (buckets m ! i), ?m')"
      using Suc.prems lt True by (rule hm_next_live)
    have "n = length (buckets ?m') - Suc i"
      using Suc.hyps(2) by simp
    moreover have "index_hm ?m' = Some (int (Suc i))"
      by simp
    ultimately have "drain ?m' =
        (map the (takeWhile live (drop (Suc i) (buckets ?m'))),
         if \<exists>b \<in> set (drop (Suc i) (buckets ?m')). \<not> live b then StopIteration
         else DynamicArrayException)"
      by (rule Suc.hyps(1))
    then show ?thesis
      using nxt True by (subst drain.simps) (simp add: eq)
  next
    case False
    have "hm_next m = Inl StopIteration"
      using Suc.prems lt False by (rule hm_next_gap)
    then show ?thesis
      using False by (subst drain.simps) (auto simp add: eq)
  qed
qed

text \<open>
  C7. A \<open>for\<close> loop over the table yields the entries of the slots from index 0 up to,
  and not including, the first slot that is Empty or Tombstoned, in that order, and
  nothing after it: the items are those of the longest prefix of Occupied slots. The
  loop ends with \<open>StopIteration\<close> at that slot when there is one.
\<close>

theorem iterate_occupied_prefix:
  "iterate m =
     (map the (takeWhile live (buckets m)),
      if \<exists>b \<in> set (buckets m). \<not> live b then StopIteration else DynamicArrayException)"
  using drain_from [of "hm_iter m" 0] by (simp add: iterate_def hm_iter_def)

theorem iterate_occupied_prefix_witness:
  "iterate ex2 = ([], StopIteration) \<and>
   buckets ex2 = [None, Some (new_HashEntry ''a'' (PyInt 1)), Some (new_HashEntry ''d'' (PyInt 2))]"
  using iterate_occupied_prefix [of ex2] by (simp add: ex2_def live_def)

section \<open>Properties of reachable tables\<close>

lemma put_reachable:
  assumes "reachable m"
  shows "\<exists>m'. put m k v = Some (Inr m') \<and> table_inv m' \<and> get m' k = Inr v \<and>
      (\<exists>i < length (buckets m'). buckets m' ! i = Some (new_HashEntry k v))"
  using put_resize_ok [OF reachable_inv [OF assms]] unfolding put_ok_def by blast

lemma table_inv_load:
  assumes "table_inv m"
  shows "table_load m = Inr (of_int (size_hm m) / of_int (capacity m)) \<and>
         (of_int (size_hm m) / of_int (capacity m) :: rat) \<le> 1 / 2 + 1 / (2 * of_int (capacity m))"
proof -
  have cap: "1 < capacity m" by (rule table_inv_cap [OF assms])
  have "2 * size_hm m \<le> capacity m + 1" using assms by (simp add: table_inv_def)
  then have "(of_int (2 * size_hm m) :: rat) \<le> of_int (capacity m + 1)"
    by (simp only: of_int_le_iff)
  then have "(of_int (size_hm m) / of_int (capacity m) :: rat) \<le> 1 / 2 + 1 / (2 * of_int (capacity m))"
    using cap by (simp add: field_simps)
  then show ?thesis using cap by (simp add: table_load_def)
qed

lemma count_live_pos:
  assumes "i < length xs" "live (xs ! i)"
  shows "0 < count_live xs"
proof -
  have "xs ! i \<in> set (filter live xs)" using assms by simp
  then have "0 < length (filter live xs)" by (rule length_pos_if_in_set)
  then show ?thesis by (simp add: count_live_def)
qed

lemma get_absent:
  assumes "table_inv m" "absent m k"
  shows "get m k = Inr PyNone"
proof -
  have cap: "0 < capacity m" using table_inv_cap [OF assms(1)] by simp
  have len: "nat (capacity m) \<le> length (buckets m)" using assms(1) by (simp add: table_inv_def)
  show ?thesis
    using get_loop_absent [OF assms(2) cap len, of "hash_function m k" 0] cap
    by (simp add: get_def py_mod_def)
qed

text \<open>
  C1, as the claim states it, fails. The claim: immediately after \<open>put\<close> returns,
  \<open>table_load()\<close> is at most 0.5. The table \<open>ex1\<close> has capacity 3 and one entry; its
  load is below 0.5, so \<open>put('d', 2)\<close> does not resize, and it returns with two entries
  in three slots: a load of 2/3.
\<close>

theorem load_above_half_after_put:
  "reachable ex1 \<and> put ex1 ''d'' (PyInt 2) = Some (Inr ex2) \<and>
   table_load ex2 = Inr (2 / 3) \<and> \<not> (2 / 3 \<le> (1 / 2 :: rat))"
  using reachable_ex1 put_ex1 by (simp add: table_load_def ex2_def)

text \<open>
  C1, amended. For every reachable table and every key and value, \<open>put\<close> returns, and
  immediately after it \<open>2 * size \<le> capacity + 1\<close>, that is, \<open>table_load()\<close> is at
  most \<open>0.5 + 1 / (2 * capacity)\<close>: the load is tested, and the table resized, before
  the entry is placed, so it is below 0.5 before the placement and not after it.
\<close>

theorem put_load_bound:
  assumes "reachable m"
  shows "\<exists>m' q. put m k v = Some (Inr m') \<and> table_load m' = Inr q \<and>
      q \<le> 1 / 2 + 1 / (2 * of_int (get_capacity m')) \<and>
      2 * get_size m' \<le> get_capacity m' + 1"
proof -
  obtain m' where m': "put m k v = Some (Inr m')" "table_inv m'"
    using put_reachable [OF assms] by blast
  then show ?thesis
    using table_inv_load [OF m'(2)]
    by (intro exI [of _ m'] exI [of _ "of_int (size_hm m') / of_int (capacity m')"])
      (simp add: get_capacity_def get_size_def table_inv_def)
qed

theorem put_load_bound_witness:
  "\<exists>m' q. put ex1 ''d'' (PyInt 2) = Some (Inr m') \<and> table_load m' = Inr q \<and>
      q \<le> 1 / 2 + 1 / (2 * of_int (get_capacity m')) \<and>
      2 * get_size m' \<le> get_capacity m' + 1"
  by (rule put_load_bound [OF reachable_ex1])

text \<open>
  C2. For every reachable table, every key \<open>k\<close> and every value \<open>v\<close>, \<open>put(k, v)\<close>
  returns and \<open>get(k)\<close> on the resulting table returns \<open>v\<close>.
\<close>

theorem put_then_get:
  assumes "reachable m"
  shows "\<exists>m'. put m k v = Some (Inr m') \<and> get m' k = Inr v"
  using put_reachable [OF assms] by blast

theorem put_then_get_witness:
  "\<exists>m'. put ex3 ''d'' (PyInt 9) = Some (Inr m') \<and> get m' ''d'' = Inr (PyInt 9)"
  by (rule put_then_get [OF reachable_ex3])

text \<open>
  C9. For every reachable table, \<open>put(k, None)\<close> returns and leaves a table in which a
  slot holds the live entry of \<open>k\<close> with value \<open>None\<close> and \<open>get_size()\<close>, the number
  of Occupied slots, is positive; \<open>get(k)\<close> returns \<open>None\<close> and \<open>contains_key(k)\<close>
  returns \<open>False\<close>, the answers every absent key gets.
\<close>

theorem put_none_looks_absent:
  assumes "reachable m"
  shows "\<exists>m'. put m k PyNone = Some (Inr m') \<and> get m' k = Inr PyNone \<and>
      contains_key m' k = Inr False \<and>
      (\<exists>i < length (buckets m'). buckets m' ! i = Some (new_HashEntry k PyNone)) \<and>
      get_size m' = count_live (buckets m') \<and> 0 < get_size m' \<and>
      (\<forall>k'. absent m' k' \<longrightarrow> get m' k' = get m' k \<and> contains_key m' k' = contains_key m' k)"
proof -
  obtain m' i where m': "put m k PyNone = Some (Inr m')" "table_inv m'" "get m' k = Inr PyNone"
      "i < length (buckets m')" "buckets m' ! i = Some (new_HashEntry k PyNone)"
    using put_reachable [OF assms] by blast
  have "live (buckets m' ! i)" using m'(5) by (simp add: live_new_HashEntry)
  then have "0 < count_live (buckets m')" using m'(4) by (intro count_live_pos)
  moreover have "size_hm m' = count_live (buckets m')" using m'(2) by (simp add: table_inv_def)
  moreover have "\<forall>k'. absent m' k' \<longrightarrow> get m' k' = get m' k \<and> contains_key m' k' = contains_key m' k"
    using get_absent [OF m'(2)] m'(3) by (simp add: contains_key_def)
  ultimately show ?thesis
    using m' by (intro exI [of _ m']) (auto simp: contains_key_def get_size_def)
qed

theorem put_none_looks_absent_witness:
  "\<exists>m'. put ex1 ''d'' PyNone = Some (Inr m') \<and> get m' ''d'' = Inr PyNone \<and>
      contains_key m' ''d'' = Inr False \<and>
      (\<exists>i < length (buckets m'). buckets m' ! i = Some (new_HashEntry ''d'' PyNone)) \<and>
      get_size m' = count_live (buckets m') \<and> 0 < get_size m' \<and>
      (\<forall>k'. absent m' k' \<longrightarrow> get m' k' = get m' ''d'' \<and> contains_key m' k' = contains_key m' ''d'')"
  by (rule put_none_looks_absent [OF reachable_ex1])





























section \<open>Further properties\<close>

text \<open>
  C3 (the code departs from it). The claim: when key \<open>k\<close> is already a live entry,
  \<open>put(k, v)\<close> updates it in place and leaves \<open>get_size()\<close> unchanged, also when
  tombstones lie on the probe sequence of \<open>k\<close> before its slot. In the reachable table
  \<open>ex3\<close> the key \<open>d\<close> is live behind the tombstone of \<open>a\<close>; \<open>put('d', 9)\<close>
  stops at the tombstone, places a second entry for \<open>d\<close> there and raises the size from
  1 to 2.
\<close>

theorem put_behind_tombstone_duplicates:
  "reachable ex3 \<and> get ex3 ''d'' = Inr (PyInt 2) \<and> get_size ex3 = 1 \<and>
   put ex3 ''d'' (PyInt 9) = Some (Inr ex4) \<and> get_size ex4 = 2 \<and>
   buckets ex4 = [None, Some (new_HashEntry ''d'' (PyInt 9)),
                  Some (new_HashEntry ''d'' (PyInt 2))]"
  using reachable_ex3 get_ex3 put_ex3 by (simp add: get_size_def ex3_def ex4_def)

text \<open>
  C4 (the code departs from it). The claim: \<open>resize_table(c)\<close> with \<open>c\<close> at least the
  size leaves \<open>get(k)\<close> unchanged for every live key. The reachable table \<open>ex4\<close>
  holds the two entries for \<open>d\<close> that \<open>put\<close> left there; \<open>get('d')\<close> is 9 before
  \<open>resize_table(7)\<close> and 2 after it, since the entries are put again in array order.
\<close>

theorem resize_changes_get_of_duplicate:
  "reachable ex4 \<and> get_size ex4 \<le> 7 \<and> get ex4 ''d'' = Inr (PyInt 9) \<and>
   resize_table ex4 7 = Some (Inr ex5) \<and> get ex5 ''d'' = Inr (PyInt 2)"
  using reachable_ex4 get_ex4 resize_ex4 get_ex5 by (simp add: get_size_def ex4_def)

text \<open>
  C5 (the code departs from it). The claim: the capacity of a table built by the
  constructor is always prime. \<open>_is_prime\<close> answers true for \<open>- 3\<close>: its loop does not
  run and it returns \<open>True\<close>; so \<open>HashMap(- 3, f)\<close> has capacity \<open>- 3\<close>, which is not
  a prime.
\<close>

theorem negative_capacity_not_prime:
  "is_prime (- 3) \<and> map_option get_capacity (HashMap_init (- 3) ord_sum) = Some (- 3) \<and>
   \<not> prime_int (- 3)"
  by (simp add: HashMap_init_def next_prime_def next_prime_loop.simps is_prime_minus_3
      get_capacity_def prime_int_def)

theorem negative_capacity_not_prime_witness:
  "\<not> prime_int (the (map_option get_capacity (HashMap_init (- 3) ord_sum)))"
proof -
  have a: "map_option get_capacity (HashMap_init (- 3) ord_sum) = Some (- 3)"
    and b: "\<not> prime_int (- 3)"
    using negative_capacity_not_prime by blast+
  show ?thesis
    unfolding a option.sel by (rule b)
qed

text \<open>
  C8. When \<open>new_capacity\<close> is below the current size, \<open>resize_table(new_capacity)\<close>
  returns without an error and the table is as it was.
\<close>

theorem resize_below_size_noop:
  "new_capacity < get_size m \<Longrightarrow> resize_table m new_capacity = Some (Inr m)"
  by (simp add: resize_table_unfold get_size_def)

theorem resize_below_size_noop_witness:
  "(1::int) < get_size ex2 \<and> resize_table ex2 1 = Some (Inr ex2)"
proof -
  have h: "(1::int) < get_size ex2"
    by (simp add: get_size_def ex2_def)
  show ?thesis
    using h resize_below_size_noop [OF h] by simp
qed

end
